theory Spec2Isabelle
  imports Main
begin

section \<open>The post collection (models/Post.js)\<close>

text \<open>
  Dates are JavaScript time values: milliseconds since the epoch, as \<open>int\<close>.
  An ObjectId is handled through its string form (\<open>post.author.toString()\<close>).
\<close>

type_synonym objectId = string
type_synonym date = int

definition DAY_MS :: int where
  "DAY_MS = 24 * 60 * 60 * 1000"

text \<open>
  A stored post document. The fields are the paths of \<open>postSchema\<close>, with \<open>createdAt\<close>
  and \<open>updatedAt\<close> added by \<open>timestamps: true\<close>. An entry of \<open>images\<close> is kept as the
  name of the stored file its \<open>url\<close> ends with; the \<open>likes\<close> array is kept as the list of
  user ids.
\<close>

record post =
  pid :: objectId
  content :: string
  author :: objectId
  category :: string
  tags :: "string list"
  images :: "string list"
  likes :: "objectId list"
  likesCount :: int
  commentsCount :: int
  isActive :: bool
  expiresAt :: date
  createdAt :: date
  updatedAt :: date

text \<open>The paths the schema declares, in the order of the source.\<close>

definition postSchemaPaths :: "string list" where
  "postSchemaPaths =
     [''content'', ''author'', ''category'', ''tags'', ''images'', ''likes'',
      ''likesCount'', ''commentsCount'', ''isActive'', ''expiresAt'',
      ''createdAt'', ''updatedAt'']"

datatype fieldValue =
    VBool bool
  | VDate date
  | VNum int
  | VString string
  | VStrings "string list"

text \<open>A document as it is read back from the store: path and value.\<close>

definition postDoc :: "post \<Rightarrow> (string \<times> fieldValue) list" where
  "postDoc p =
     [(''_id'', VString (pid p)),
      (''content'', VString (content p)),
      (''author'', VString (author p)),
      (''category'', VString (category p)),
      (''tags'', VStrings (tags p)),
      (''images'', VStrings (images p)),
      (''likes'', VStrings (likes p)),
      (''likesCount'', VNum (likesCount p)),
      (''commentsCount'', VNum (commentsCount p)),
      (''isActive'', VBool (isActive p)),
      (''expiresAt'', VDate (expiresAt p)),
      (''createdAt'', VDate (createdAt p)),
      (''updatedAt'', VDate (updatedAt p))]"

definition readPath :: "post \<Rightarrow> string \<Rightarrow> fieldValue option" where
  "readPath p k = map_of (postDoc p) k"

text \<open>
  The schema sets no \<open>strict\<close> option, so Mongoose's default (\<open>strict: true\<close>) applies:
  an update is cast through the schema and every path the schema does not declare is
  dropped before the update reaches the store.
\<close>

definition castUpdate :: "(string \<times> fieldValue) list \<Rightarrow> (string \<times> fieldValue) list" where
  "castUpdate upd = filter (\<lambda>kv. fst kv \<in> set postSchemaPaths) upd"

fun setPath :: "post \<Rightarrow> string \<times> fieldValue \<Rightarrow> post" where
  "setPath p (k, VBool b) = (if k = ''isActive'' then p\<lparr>isActive := b\<rparr> else p)"
| "setPath p (k, VDate d) =
     (if k = ''expiresAt'' then p\<lparr>expiresAt := d\<rparr>
      else if k = ''createdAt'' then p\<lparr>createdAt := d\<rparr>
      else if k = ''updatedAt'' then p\<lparr>updatedAt := d\<rparr>
      else p)"
| "setPath p (k, VNum n) =
     (if k = ''likesCount'' then p\<lparr>likesCount := n\<rparr>
      else if k = ''commentsCount'' then p\<lparr>commentsCount := n\<rparr>
      else p)"
| "setPath p (k, VString s) =
     (if k = ''content'' then p\<lparr>content := s\<rparr>
      else if k = ''author'' then p\<lparr>author := s\<rparr>
      else if k = ''category'' then p\<lparr>category := s\<rparr>
      else p)"
| "setPath p (k, VStrings ss) =
     (if k = ''tags'' then p\<lparr>tags := ss\<rparr>
      else if k = ''images'' then p\<lparr>images := ss\<rparr>
      else if k = ''likes'' then p\<lparr>likes := ss\<rparr>
      else p)"

text \<open>
  One update of one document: the cast update is applied path by path, and
  \<open>timestamps: true\<close> makes Mongoose stamp \<open>updatedAt\<close> with the time of the call.
\<close>

definition applyUpdate :: "date \<Rightarrow> (string \<times> fieldValue) list \<Rightarrow> post \<Rightarrow> post" where
  "applyUpdate now upd p = (foldl setPath p (castUpdate upd))\<lparr>updatedAt := now\<rparr>"

text \<open>
  Modelled from the spec: the author aggregate. models/User.js is not among the sources;
  the spec gives the author a \<open>postsCount\<close>, an integer, which the cleanup service and the
  controllers write through \<open>User.findByIdAndUpdate\<close>.
\<close>

record user =
  postsCount :: int

text \<open>What a stored image file holds, as far as the image code can tell.\<close>

datatype imgFormat = JPEG | PNG | GIF | WEBP

record fileData =
  encoding :: imgFormat
  quality :: "nat option"
  width :: nat
  height :: nat

text \<open>The whole persistent state: the two collections and the upload directory.\<close>

record db =
  posts :: "post list"
  users :: "objectId \<rightharpoonup> user"
  files :: "string \<rightharpoonup> fileData"

section \<open>Collection operations\<close>

definition updateMany :: "(post \<Rightarrow> bool) \<Rightarrow> date \<Rightarrow> (string \<times> fieldValue) list \<Rightarrow> post list \<Rightarrow> post list" where
  "updateMany flt now upd ps = map (\<lambda>p. if flt p then applyUpdate now upd p else p) ps"

definition countDocuments :: "(post \<Rightarrow> bool) \<Rightarrow> post list \<Rightarrow> int" where
  "countDocuments flt ps = int (length (filter flt ps))"

definition deleteMany :: "(post \<Rightarrow> bool) \<Rightarrow> post list \<Rightarrow> post list" where
  "deleteMany flt ps = filter (\<lambda>p. \<not> flt p) ps"

text \<open>\<open>findOneAndUpdate\<close>: the first document the filter matches is updated, if there is one.\<close>

fun findOneAndUpdate :: "(post \<Rightarrow> bool) \<Rightarrow> date \<Rightarrow> (string \<times> fieldValue) list \<Rightarrow> post list \<Rightarrow> post list" where
  "findOneAndUpdate flt now upd [] = []"
| "findOneAndUpdate flt now upd (p # ps) =
     (if flt p then applyUpdate now upd p # ps else p # findOneAndUpdate flt now upd ps)"

text \<open>\<open>findByIdAndDelete\<close>: the first document with the id is removed, if there is one.\<close>

fun findByIdAndDelete :: "objectId \<Rightarrow> post list \<Rightarrow> post list" where
  "findByIdAndDelete i [] = []"
| "findByIdAndDelete i (p # ps) = (if pid p = i then ps else p # findByIdAndDelete i ps)"

text \<open>\<open>User.findByIdAndUpdate(id, {postsCount: c})\<close>; an unknown id changes nothing.\<close>

definition setPostsCount :: "objectId \<Rightarrow> int \<Rightarrow> (objectId \<rightharpoonup> user) \<Rightarrow> (objectId \<rightharpoonup> user)" where
  "setPostsCount uid c us = (case us uid of None \<Rightarrow> us | Some u \<Rightarrow> us(uid \<mapsto> u\<lparr>postsCount := c\<rparr>))"

text \<open>\<open>User.findByIdAndUpdate(id, {$inc: {postsCount: d}})\<close>.\<close>

definition incPostsCount :: "objectId \<Rightarrow> int \<Rightarrow> (objectId \<rightharpoonup> user) \<Rightarrow> (objectId \<rightharpoonup> user)" where
  "incPostsCount uid d us =
     (case us uid of None \<Rightarrow> us | Some u \<Rightarrow> us(uid \<mapsto> u\<lparr>postsCount := postsCount u + d\<rparr>))"

section \<open>The cleanup service (services/postCleanupService.js)\<close>

text \<open>\<open>[...new Set(xs)]\<close>: duplicates removed, first occurrences kept in order.\<close>

fun uniq :: "'a list \<Rightarrow> 'a list" where
  "uniq [] = []"
| "uniq (x # xs) = x # filter (\<lambda>y. y \<noteq> x) (uniq xs)"

definition expiredFilter :: "date \<Rightarrow> post \<Rightarrow> bool" where
  "expiredFilter twentyFourHoursAgo p \<longleftrightarrow> createdAt p < twentyFourHoursAgo \<and> isActive p"

definition hardDeleteFilter :: "date \<Rightarrow> post \<Rightarrow> bool" where
  "hardDeleteFilter sevenDaysAgo p \<longleftrightarrow> createdAt p < sevenDaysAgo \<and> \<not> isActive p"

text \<open>The update document of the soft delete, lines 58 to 61.\<close>

definition softDeleteUpdate :: "date \<Rightarrow> (string \<times> fieldValue) list" where
  "softDeleteUpdate now = [(''isActive'', VBool False), (''deletedAt'', VDate now)]"

record sweepResult =
  softDeleted :: nat
  hardDeleted :: nat
  usersUpdated :: nat

text \<open>
  The three phases of \<open>cleanupExpiredPosts\<close> once the batch is not empty. The function
  reads the clock three times: \<open>now1\<close> at line 34, \<open>now2\<close> at line 60 and \<open>now3\<close> at
  line 81.
\<close>

definition markInactive :: "date \<Rightarrow> date \<Rightarrow> db \<Rightarrow> db" where
  "markInactive now1 now2 s =
     s\<lparr>posts := updateMany (expiredFilter (now1 - DAY_MS)) now2 (softDeleteUpdate now2) (posts s)\<rparr>"

definition syncAuthor :: "objectId \<Rightarrow> db \<Rightarrow> db" where
  "syncAuthor authorId s =
     (let activePostCount = countDocuments (\<lambda>p. author p = authorId \<and> isActive p) (posts s)
      in s\<lparr>users := setPostsCount authorId activePostCount (users s)\<rparr>)"

definition updateCounts :: "objectId list \<Rightarrow> db \<Rightarrow> db" where
  "updateCounts authorIds s = fold syncAuthor authorIds s"

definition hardDelete :: "date \<Rightarrow> db \<Rightarrow> db" where
  "hardDelete now3 s = s\<lparr>posts := deleteMany (hardDeleteFilter (now3 - 7 * DAY_MS)) (posts s)\<rparr>"

text \<open>
  The successive states of the store during one run: before, after \<open>updateMany\<close>, after
  the counter loop, after \<open>deleteMany\<close>. When no post matches the first query the function
  returns at line 44 and the store is never written.
\<close>

definition sweepStates :: "date \<Rightarrow> date \<Rightarrow> date \<Rightarrow> db \<Rightarrow> db list" where
  "sweepStates now1 now2 now3 s =
     (let expiredPosts = filter (expiredFilter (now1 - DAY_MS)) (posts s)
      in if length expiredPosts = 0 then [s]
         else let authorIds = uniq (map author expiredPosts);
                  s1 = markInactive now1 now2 s;
                  s2 = updateCounts authorIds s1;
                  s3 = hardDelete now3 s2
              in [s, s1, s2, s3])"

definition cleanupExpiredPosts :: "date \<Rightarrow> date \<Rightarrow> date \<Rightarrow> db \<Rightarrow> sweepResult option \<times> db" where
  "cleanupExpiredPosts now1 now2 now3 s =
     (let expiredPosts = filter (expiredFilter (now1 - DAY_MS)) (posts s)
      in if length expiredPosts = 0 then (None, s)
         else let authorIds = uniq (map author expiredPosts);
                  s1 = markInactive now1 now2 s;
                  s2 = updateCounts authorIds s1;
                  s3 = hardDelete now3 s2
              in (Some \<lparr>softDeleted = length expiredPosts,
                         hardDeleted = length (posts s2) - length (posts s3),
                         usersUpdated = length authorIds\<rparr>, s3))"

text \<open>\<open>manualCleanup\<close>, the administrative trigger, runs the same function.\<close>

definition manualCleanup :: "date \<Rightarrow> date \<Rightarrow> date \<Rightarrow> db \<Rightarrow> sweepResult option \<times> db" where
  "manualCleanup = cleanupExpiredPosts"

section \<open>Observed post states\<close>

datatype postState = Active | Expired | Purged

definition findById :: "objectId \<Rightarrow> post list \<Rightarrow> post option" where
  "findById i ps = find (\<lambda>p. pid p = i) ps"

definition stateOf :: "db \<Rightarrow> objectId \<Rightarrow> postState" where
  "stateOf s i =
     (case findById i (posts s) of
        None \<Rightarrow> Purged
      | Some p \<Rightarrow> if isActive p then Active else Expired)"

text \<open>
  The store states one run of the sweep passes through are those of \<open>sweepStates\<close>; a
  chain of states is legal for a post when every step is one of Active to Expired, Expired
  to Purged or no change, and Active to Purged only where the request is an explicit delete.
\<close>

definition legalStep :: "bool \<Rightarrow> postState \<Rightarrow> postState \<Rightarrow> bool" where
  "legalStep explicitDelete a b \<longleftrightarrow>
     a = b \<or> (a = Active \<and> b = Expired) \<or> (a = Expired \<and> b = Purged)
     \<or> (explicitDelete \<and> a = Active \<and> b = Purged)"

fun chainLegal :: "bool \<Rightarrow> objectId \<Rightarrow> db list \<Rightarrow> bool" where
  "chainLegal d i (a # b # rest) \<longleftrightarrow>
     legalStep d (stateOf a i) (stateOf b i) \<and> chainLegal d i (b # rest)"
| "chainLegal d i _ \<longleftrightarrow> True"

section \<open>The TTL index on \<open>expiresAt\<close> (models/Post.js, lines 75 to 79 and 107 to 114)\<close>

text \<open>
  Saving a new document: the pre-save hook sets \<open>expiresAt\<close> to 24 hours after the save,
  and \<open>timestamps: true\<close> stamps \<open>createdAt\<close> and \<open>updatedAt\<close>.
\<close>

definition saveNew :: "date \<Rightarrow> post \<Rightarrow> post" where
  "saveNew now p = p\<lparr>expiresAt := now + DAY_MS, createdAt := now, updatedAt := now\<rparr>"

definition expireAfterSeconds :: int where
  "expireAfterSeconds = 86400"

text \<open>
  The index option \<open>expireAfterSeconds: 86400\<close> makes the document store delete, in its own
  background pass, every document whose \<open>expiresAt\<close> lies at least that many seconds in the
  past, whatever its other fields hold.
\<close>

definition ttlMonitor :: "date \<Rightarrow> db \<Rightarrow> db" where
  "ttlMonitor now s =
     s\<lparr>posts := deleteMany (\<lambda>p. expiresAt p + expireAfterSeconds * 1000 \<le> now) (posts s)\<rparr>"

section \<open>The posts controller (controllers/postsController_old.js)\<close>

definition categories :: "string list" where
  "categories =
     [''Ideologies'', ''Ideas'', ''Inventions'', ''Innovations'', ''Businesses'', ''Ventures'',
      ''Startups'', ''Companies'', ''Branches'', ''Investments'', ''Partnerships'', ''Networth'',
      ''General'']"

text \<open>The schema validators of the three paths a request can write.\<close>

definition validFields :: "string \<Rightarrow> string \<Rightarrow> string list \<Rightarrow> bool" where
  "validFields c cat ts \<longleftrightarrow>
     c \<noteq> [] \<and> length c \<le> 1000 \<and> cat \<in> set categories \<and> list_all (\<lambda>t. length t \<le> 30) ts"

text \<open>\<open>x || d\<close> on a string that may be undefined or empty.\<close>

definition orElse :: "string option \<Rightarrow> string \<Rightarrow> string" where
  "orElse x d = (case x of None \<Rightarrow> d | Some v \<Rightarrow> if v = [] then d else v)"

text \<open>
  \<open>createPost\<close>, from line 109. The new ObjectId is an argument; an id already in the
  collection is a duplicate key error, answered like every other exception with 500. The
  content is taken as already trimmed.
\<close>

definition createPost ::
  "objectId \<Rightarrow> date \<Rightarrow> objectId \<Rightarrow> string \<Rightarrow> string option \<Rightarrow> string list option \<Rightarrow> string list \<Rightarrow> db \<Rightarrow> nat \<times> db" where
  "createPost newId now authorId c cat ts imgs s =
     (let p = \<lparr>pid = newId, content = c, author = authorId,
                category = orElse cat ''General'',
                tags = (case ts of None \<Rightarrow> [] | Some t \<Rightarrow> t),
                images = imgs, likes = [], likesCount = 0, commentsCount = 0,
                isActive = True, expiresAt = now, createdAt = now, updatedAt = now\<rparr>
      in if \<not> validFields (content p) (category p) (tags p) \<or> newId \<in> pid ` set (posts s)
         then (500, s)
         else (201, s\<lparr>posts := posts s @ [saveNew now p],
                       users := incPostsCount authorId 1 (users s)\<rparr>))"

text \<open>\<open>updatePost\<close>, from line 155.\<close>

definition updatePost ::
  "date \<Rightarrow> objectId \<Rightarrow> objectId \<Rightarrow> string \<Rightarrow> string option \<Rightarrow> string list option \<Rightarrow> db \<Rightarrow> nat \<times> db" where
  "updatePost now postId userId c cat ts s =
     (let flt = (\<lambda>p. pid p = postId \<and> author p = userId \<and> isActive p);
          cat' = orElse cat ''General'';
          ts' = (case ts of None \<Rightarrow> [] | Some t \<Rightarrow> t);
          upd = [(''content'', VString c), (''category'', VString cat'),
                 (''tags'', VStrings ts'), (''updatedAt'', VDate now)]
      in if \<not> validFields c cat' ts' then (500, s)
         else if find flt (posts s) = None then (404, s)
         else (200, s\<lparr>posts := findOneAndUpdate flt now upd (posts s)\<rparr>))"

text \<open>\<open>deletePost\<close>, from line 194: a soft delete.\<close>

definition deletePost :: "date \<Rightarrow> objectId \<Rightarrow> objectId \<Rightarrow> db \<Rightarrow> nat \<times> db" where
  "deletePost now postId userId s =
     (let flt = (\<lambda>p. pid p = postId \<and> author p = userId \<and> isActive p)
      in if find flt (posts s) = None then (404, s)
         else (200, s\<lparr>posts := findOneAndUpdate flt now [(''isActive'', VBool False)] (posts s),
                       users := incPostsCount userId (- 1) (users s)\<rparr>))"

text \<open>
  \<open>runValidators: true\<close> on an update runs the schema validators of the paths the update
  sets, and of no other path: what the stored document holds elsewhere is not looked at.
\<close>

fun validPath :: "string \<times> fieldValue \<Rightarrow> bool" where
  "validPath (k, VString v) \<longleftrightarrow>
     (if k = ''content'' then v \<noteq> [] \<and> length v \<le> 1000
      else if k = ''category'' then v \<in> set categories
      else True)"
| "validPath (k, VStrings vs) \<longleftrightarrow>
     (if k = ''tags'' then list_all (\<lambda>t. length t \<le> 30) vs else True)"
| "validPath (k, _) \<longleftrightarrow> True"

definition validUpdate :: "(string \<times> fieldValue) list \<Rightarrow> bool" where
  "validUpdate upd \<longleftrightarrow> list_all validPath upd"

text \<open>
  The second \<open>PostsController\<close> of the same file (from line 949). Its \<open>updatePost\<close>, from
  line 1098, writes only the fields the request gives (\<open>content && {content}\<close> leaves out
  an undefined or empty string, \<open>tags && {tags}\<close> keeps every array); a validator that
  rejects one of them throws, and the catch block answers 500. Its \<open>deletePost\<close>, from
  line 1143, removes the record.
\<close>

definition updatePost_v2 ::
  "date \<Rightarrow> objectId \<Rightarrow> objectId \<Rightarrow> string option \<Rightarrow> string option \<Rightarrow> string list option \<Rightarrow> db \<Rightarrow> nat \<times> db" where
  "updatePost_v2 now postId userId c cat ts s =
     (case findById postId (posts s) of
        None \<Rightarrow> (404, s)
      | Some p \<Rightarrow>
          if author p \<noteq> userId then (403, s)
          else
            let upd = (case c of None \<Rightarrow> [] | Some v \<Rightarrow> if v = [] then [] else [(''content'', VString v)])
                    @ (case cat of None \<Rightarrow> [] | Some v \<Rightarrow> if v = [] then [] else [(''category'', VString v)])
                    @ (case ts of None \<Rightarrow> [] | Some v \<Rightarrow> [(''tags'', VStrings v)])
            in if \<not> validUpdate upd then (500, s)
               else (200, s\<lparr>posts := findOneAndUpdate (\<lambda>q. pid q = postId) now upd (posts s)\<rparr>))"

definition deletePost_v2 :: "objectId \<Rightarrow> objectId \<Rightarrow> db \<Rightarrow> nat \<times> db" where
  "deletePost_v2 postId userId s =
     (case findById postId (posts s) of
        None \<Rightarrow> (404, s)
      | Some p \<Rightarrow>
          if author p \<noteq> userId then (403, s)
          else (200, s\<lparr>posts := findByIdAndDelete postId (posts s),
                        users := incPostsCount userId (- 1) (users s)\<rparr>))"

section \<open>Requests and the store states they pass through\<close>

datatype request =
    Sweep date date date
  | UpdatePost date objectId objectId string "string option" "string list option"
  | DeletePost date objectId objectId
  | UpdatePostV2 date objectId objectId "string option" "string option" "string list option"
  | DeletePostV2 objectId objectId
  | TtlPass date

fun observed :: "request \<Rightarrow> db \<Rightarrow> db list" where
  "observed (Sweep now1 now2 now3) s = sweepStates now1 now2 now3 s"
| "observed (UpdatePost now postId userId c cat ts) s = [s, snd (updatePost now postId userId c cat ts s)]"
| "observed (DeletePost now postId userId) s = [s, snd (deletePost now postId userId s)]"
| "observed (UpdatePostV2 now postId userId c cat ts) s = [s, snd (updatePost_v2 now postId userId c cat ts s)]"
| "observed (DeletePostV2 postId userId) s = [s, snd (deletePost_v2 postId userId s)]"
| "observed (TtlPass now) s = [s, ttlMonitor now s]"

text \<open>
  Whether a request, issued on store \<open>s\<close>, may take post \<open>i\<close> from Active straight to
  Purged: only the delete of the second controller, for the post it names and on behalf of
  that post's author, and the TTL pass, for a post whose \<open>expiresAt\<close> is 86400 seconds
  or more in the past. The soft delete of the first controller, the updates and the sweep
  never may, and no request may for any other post.
\<close>

fun purgeLicence :: "request \<Rightarrow> db \<Rightarrow> objectId \<Rightarrow> bool" where
  "purgeLicence (DeletePostV2 postId userId) s i \<longleftrightarrow>
     i = postId \<and> (case findById i (posts s) of None \<Rightarrow> False | Some p \<Rightarrow> author p = userId)"
| "purgeLicence (TtlPass now) s i \<longleftrightarrow>
     (case findById i (posts s) of
        None \<Rightarrow> False
      | Some p \<Rightarrow> expiresAt p + expireAfterSeconds * 1000 \<le> now)"
| "purgeLicence _ s i \<longleftrightarrow> False"

text \<open>
  A sequence of requests, each starting from the store the one before left: every chain
  of observed states has to be legal for the post.
\<close>

fun traceLegal :: "objectId \<Rightarrow> request list \<Rightarrow> db \<Rightarrow> bool" where
  "traceLegal i [] s \<longleftrightarrow> True"
| "traceLegal i (r # rs) s \<longleftrightarrow>
     chainLegal (purgeLicence r s i) i (observed r s) \<and> traceLegal i rs (last (observed r s))"

section \<open>Image files (config/config.js, middleware/imageUpload.js, controllers/imageController.js)\<close>

text \<open>
  \<open>config.images.uploadPath\<close> is \<open>./uploads/images\<close>, which \<open>path.join\<close> normalises. File
  names are single path segments (the route parameter, or the name multer made from a uuid
  and an extension), so joining is concatenation.
\<close>

definition uploadPath :: string where
  "uploadPath = ''uploads/images''"

definition joinUpload :: "string \<Rightarrow> string" where
  "joinUpload f = uploadPath @ ''/'' @ f"

text \<open>\<open>Object.entries(config.images.thumbnailSizes)\<close>: profile name, width, height.\<close>

definition thumbnailSizes :: "(string \<times> nat \<times> nat) list" where
  "thumbnailSizes = [(''small'', 150, 150), (''medium'', 400, 400), (''large'', 800, 600)]"

text \<open>
  \<open>path.extname\<close> and \<open>path.parse(f).name\<close> on a single segment: the extension starts at
  the last dot, unless there is no dot, the only dot is the first character, or the name is
  \<open>..\<close>; then the extension is empty.
\<close>

definition extname :: "string \<Rightarrow> string" where
  "extname f =
     (let tl = rev (takeWhile (\<lambda>c. c \<noteq> CHR ''.'') (rev f))
      in if CHR ''.'' \<notin> set f \<or> length f = Suc (length tl) \<or> f = ''..'' then []
         else drop (length f - Suc (length tl)) f)"

definition parseName :: "string \<Rightarrow> string" where
  "parseName f = take (length f - length (extname f)) f"

definition thumbnailPath :: "string \<Rightarrow> string \<Rightarrow> string" where
  "thumbnailPath f sz = joinUpload (parseName f @ ''_'' @ sz @ extname f)"

text \<open>
  The two sharp operations the upload middleware chains. \<open>resize(w, h, {fit: 'cover'})\<close>
  without \<open>withoutEnlargement\<close> scales and crops to exactly \<open>w\<close> by \<open>h\<close>; \<open>jpeg({quality})\<close>
  selects the output format explicitly, so \<open>toFile\<close> does not infer it from the extension.
\<close>

definition resizeCover :: "nat \<Rightarrow> nat \<Rightarrow> fileData \<Rightarrow> fileData" where
  "resizeCover w h img = img\<lparr>width := w, height := h\<rparr>"

definition jpeg :: "nat \<Rightarrow> fileData \<Rightarrow> fileData" where
  "jpeg q img = img\<lparr>encoding := JPEG, quality := Some q\<rparr>"

text \<open>A file as multer hands it over; it is already stored at \<open>fpath\<close>.\<close>

record upload =
  filename :: string
  originalname :: string
  mimetype :: string
  fsize :: nat
  fpath :: string

record thumbnail =
  t_url :: string
  t_width :: nat
  t_height :: nat

record processedImage =
  pi_filename :: string
  pi_originalName :: string
  pi_mimeType :: string
  pi_size :: nat
  pi_url :: string
  pi_thumbnails :: "(string \<times> thumbnail) list"
  pi_metadata :: "nat \<times> nat \<times> imgFormat"

datatype imgError = SharpFailure string

text \<open>
  The inner loop of \<open>processImage\<close>, lines 125 to 144. sharp throws when its input is
  missing; \<open>fails\<close> says for which output paths the pipeline throws otherwise (a codec or
  disk error). Whatever was written before the throw stays written.
\<close>

fun makeThumbnails ::
  "(string \<Rightarrow> bool) \<Rightarrow> string \<Rightarrow> upload \<Rightarrow> (string \<times> nat \<times> nat) list \<Rightarrow> (string \<rightharpoonup> fileData)
     \<Rightarrow> (imgError + (string \<times> thumbnail) list) \<times> (string \<rightharpoonup> fileData)" where
  "makeThumbnails fails baseUrl file [] fs = (Inr [], fs)"
| "makeThumbnails fails baseUrl file ((sz, w, h) # rest) fs =
     (let out = thumbnailPath (filename file) sz
      in case fs (fpath file) of
           None \<Rightarrow> (Inl (SharpFailure (fpath file)), fs)
         | Some src \<Rightarrow>
             if fails out then (Inl (SharpFailure out), fs)
             else
               (case makeThumbnails fails baseUrl file rest (fs(out \<mapsto> jpeg 85 (resizeCover w h src))) of
                  (Inl e, fs') \<Rightarrow> (Inl e, fs')
                | (Inr ts, fs') \<Rightarrow>
                    (Inr ((sz, \<lparr>t_url = baseUrl @ ''/uploads/images/'' @ parseName (filename file) @ ''_'' @ sz @ extname (filename file),
                                t_width = w, t_height = h\<rparr>) # ts), fs')))"

text \<open>The outer loop, lines 117 to 167. The random \<open>id\<close> and the \<open>uploadedAt\<close> stamp are left out.\<close>

fun processFiles ::
  "(string \<Rightarrow> bool) \<Rightarrow> string \<Rightarrow> upload list \<Rightarrow> (string \<rightharpoonup> fileData)
     \<Rightarrow> (imgError + processedImage list) \<times> (string \<rightharpoonup> fileData)" where
  "processFiles fails baseUrl [] fs = (Inr [], fs)"
| "processFiles fails baseUrl (file # rest) fs =
     (case makeThumbnails fails baseUrl file thumbnailSizes fs of
        (Inl e, fs') \<Rightarrow> (Inl e, fs')
      | (Inr thumbs, fs') \<Rightarrow>
          (case fs' (fpath file) of
             None \<Rightarrow> (Inl (SharpFailure (fpath file)), fs')
           | Some src \<Rightarrow>
               (case processFiles fails baseUrl rest fs' of
                  (Inl e, fs'') \<Rightarrow> (Inl e, fs'')
                | (Inr imgs, fs'') \<Rightarrow>
                    (Inr (\<lparr>pi_filename = filename file, pi_originalName = originalname file,
                           pi_mimeType = mimetype file, pi_size = fsize file,
                           pi_url = baseUrl @ ''/uploads/images/'' @ filename file,
                           pi_thumbnails = thumbs,
                           pi_metadata = (width src, height src, encoding src)\<rparr> # imgs), fs''))))"

text \<open>
  \<open>processImage\<close>, lines 93 to 174. The argument is \<open>req.files || [req.file]\<close>, or \<open>None\<close>
  when the request has neither. An \<open>Inl\<close> result is the \<open>next(error)\<close> of the catch block,
  which passes the error on and does nothing else.
\<close>

definition processImage ::
  "(string \<Rightarrow> bool) \<Rightarrow> string \<Rightarrow> upload list option \<Rightarrow> (string \<rightharpoonup> fileData)
     \<Rightarrow> (imgError + processedImage list) \<times> (string \<rightharpoonup> fileData)" where
  "processImage fails baseUrl req fs =
     (case req of None \<Rightarrow> (Inr [], fs) | Some fls \<Rightarrow> processFiles fails baseUrl fls fs)"

text \<open>\<open>fs.unlink\<close> inside a try block that ignores the error.\<close>

definition unlinkIgnore :: "string \<Rightarrow> (string \<rightharpoonup> fileData) \<Rightarrow> (string \<rightharpoonup> fileData)" where
  "unlinkIgnore p fs = fs(p := None)"

definition unlinkThumbnails :: "string \<Rightarrow> (string \<rightharpoonup> fileData) \<Rightarrow> (string \<rightharpoonup> fileData)" where
  "unlinkThumbnails f fs = fold (\<lambda>sz. unlinkIgnore (thumbnailPath f sz)) (map fst thumbnailSizes) fs"

text \<open>
  \<open>cleanupFiles\<close>, lines 221 to 250: when unlinking the original throws, the catch block
  logs and the thumbnails of that file are skipped. No source file calls this function.
\<close>

fun cleanupFiles :: "upload list \<Rightarrow> (string \<rightharpoonup> fileData) \<Rightarrow> (string \<rightharpoonup> fileData)" where
  "cleanupFiles [] fs = fs"
| "cleanupFiles (file # rest) fs =
     cleanupFiles rest
       (case fs (fpath file) of
          None \<Rightarrow> fs
        | Some _ \<Rightarrow> unlinkThumbnails (filename file) (fs(fpath file := None)))"

text \<open>\<open>getImage\<close>, lines 73 to 111, as the lookup of a stored file: the HTTP status.\<close>

definition getImage :: "string \<Rightarrow> (string \<rightharpoonup> fileData) \<Rightarrow> nat" where
  "getImage f fs = (case fs (joinUpload f) of None \<Rightarrow> 404 | Some _ \<Rightarrow> 200)"

text \<open>
  \<open>deleteImage\<close>, lines 114 to 162: the HTTP status and the directory afterwards. A
  stored file can always be unlinked here, so the 500 answer of the outer catch block has
  no counterpart.
\<close>

definition deleteImage :: "string \<Rightarrow> (string \<rightharpoonup> fileData) \<Rightarrow> nat \<times> (string \<rightharpoonup> fileData)" where
  "deleteImage f fs =
     (let imagePath = joinUpload f
      in case fs imagePath of
           None \<Rightarrow> (404, fs)
         | Some _ \<Rightarrow> (200, unlinkThumbnails f (fs(imagePath := None))))"

section \<open>Concrete stores\<close>

definition storedPost :: "objectId \<Rightarrow> objectId \<Rightarrow> bool \<Rightarrow> date \<Rightarrow> string list \<Rightarrow> post" where
  "storedPost i a act created imgs =
     \<lparr>pid = i, content = ''text'', author = a, category = ''General'', tags = [],
      images = imgs, likes = [], likesCount = 0, commentsCount = 0, isActive = act,
      expiresAt = created + DAY_MS, createdAt = created, updatedAt = created\<rparr>"

definition jpegFile :: "nat \<Rightarrow> nat \<Rightarrow> fileData" where
  "jpegFile w h = \<lparr>encoding = JPEG, quality = None, width = w, height = h\<rparr>"

definition pngFile :: "nat \<Rightarrow> nat \<Rightarrow> fileData" where
  "pngFile w h = \<lparr>encoding = PNG, quality = None, width = w, height = h\<rparr>"

text \<open>
  A store read at time \<open>10 * DAY_MS\<close>: \<open>p1\<close> is active and 25 hours old, \<open>p2\<close> is inactive
  and one millisecond older than 7 days and owns the image \<open>b.jpg\<close>, \<open>p3\<close> is inactive and
  exactly 7 days old, \<open>p4\<close> is active and exactly 24 hours old. The counter of \<open>u1\<close> has
  drifted to 42.
\<close>

definition sweepDb :: db where
  "sweepDb =
     \<lparr>posts = [storedPost ''p1'' ''u1'' True (9 * DAY_MS - 3600000) [],
               storedPost ''p2'' ''u1'' False (3 * DAY_MS - 1) [''b.jpg''],
               storedPost ''p3'' ''u2'' False (3 * DAY_MS) [],
               storedPost ''p4'' ''u1'' True (9 * DAY_MS) []],
      users = [''u1'' \<mapsto> \<lparr>postsCount = 42\<rparr>, ''u2'' \<mapsto> \<lparr>postsCount = 0\<rparr>],
      files = [joinUpload ''b.jpg'' \<mapsto> jpegFile 1000 800,
               thumbnailPath ''b.jpg'' ''small'' \<mapsto> jpegFile 150 150]\<rparr>"

text \<open>The same store without \<open>p1\<close>: no active post is older than 24 hours.\<close>

definition quietDb :: db where
  "quietDb = sweepDb\<lparr>posts := tl (posts sweepDb)\<rparr>"

definition emptyDb :: db where
  "emptyDb = \<lparr>posts = [], users = [''u1'' \<mapsto> \<lparr>postsCount = 0\<rparr>], files = Map.empty\<rparr>"

text \<open>
  An upload directory holding one asset, \<open>a.jpg\<close> with its three derivatives, and a PNG
  upload as multer stores it, once large and once smaller than every profile.
\<close>

definition assetFiles :: "string \<rightharpoonup> fileData" where
  "assetFiles =
     [joinUpload ''a.jpg'' \<mapsto> jpegFile 1000 800,
      thumbnailPath ''a.jpg'' ''small'' \<mapsto> jpegFile 150 150,
      thumbnailPath ''a.jpg'' ''medium'' \<mapsto> jpegFile 400 400,
      thumbnailPath ''a.jpg'' ''large'' \<mapsto> jpegFile 800 600]"

definition pngUpload :: upload where
  "pngUpload =
     \<lparr>filename = ''a.png'', originalname = ''Photo.PNG'', mimetype = ''image/png'',
      fsize = 4096, fpath = joinUpload ''a.png''\<rparr>"

definition pngDir :: "string \<rightharpoonup> fileData" where
  "pngDir = [joinUpload ''a.png'' \<mapsto> pngFile 1000 800]"

definition smallPngDir :: "string \<rightharpoonup> fileData" where
  "smallPngDir = [joinUpload ''a.png'' \<mapsto> pngFile 100 80]"

text \<open>The pipeline that throws while writing the large derivative of \<open>a.png\<close>, and the one that never throws.\<close>

definition largeFails :: "string \<Rightarrow> bool" where
  "largeFails out \<longleftrightarrow> out = thumbnailPath ''a.png'' ''large''"

definition neverFails :: "string \<Rightarrow> bool" where
  "neverFails out \<longleftrightarrow> False"

section \<open>Facts about the collection operations\<close>



lemma setPath_pid: "pid (setPath p kv) = pid p"
  by (cases "(p, kv)" rule: setPath.cases) auto

lemma foldl_setPath_pid: "pid (foldl setPath p kvs) = pid p"
  by (induction kvs arbitrary: p) (simp_all add: setPath_pid)

lemma applyUpdate_pid: "pid (applyUpdate now upd p) = pid p"
  by (simp add: applyUpdate_def foldl_setPath_pid)

lemma setPath_isActive: "''isActive'' \<noteq> fst kv \<Longrightarrow> isActive (setPath p kv) = isActive p"
  by (cases "(p, kv)" rule: setPath.cases) auto

lemma foldl_setPath_isActive:
  "''isActive'' \<notin> fst ` set kvs \<Longrightarrow> isActive (foldl setPath p kvs) = isActive p"
  by (induction kvs arbitrary: p) (simp_all add: setPath_isActive)

lemma applyUpdate_isActive:
  "''isActive'' \<notin> fst ` set upd \<Longrightarrow> isActive (applyUpdate now upd p) = isActive p"
proof -
  assume "''isActive'' \<notin> fst ` set upd"
  then have "''isActive'' \<notin> fst ` set (castUpdate upd)" by (auto simp: castUpdate_def)
  then show ?thesis by (simp add: applyUpdate_def foldl_setPath_isActive)
qed

lemma castUpdate_softDelete: "castUpdate (softDeleteUpdate n) = [(''isActive'', VBool False)]"
  by (simp add: castUpdate_def softDeleteUpdate_def postSchemaPaths_def)

lemma applyUpdate_softDelete:
  "applyUpdate now (softDeleteUpdate n) p = p\<lparr>isActive := False, updatedAt := now\<rparr>"
  by (simp add: applyUpdate_def castUpdate_softDelete)

lemma findById_map:
  assumes "\<And>p. pid (f p) = pid p"
  shows "findById i (map f ps) = map_option f (findById i ps)"
  using assms by (induction ps) (simp_all add: findById_def)

lemma findById_mem: "findById i ps = Some p \<Longrightarrow> p \<in> set ps \<and> pid p = i"
  by (induction ps) (auto simp: findById_def split: if_splits)

lemma findById_None: "findById i ps = None \<longleftrightarrow> i \<notin> pid ` set ps"
  by (induction ps) (auto simp: findById_def)

lemma findById_filter:
  assumes "distinct (map pid ps)"
  shows "findById i (filter keep ps) =
           (case findById i ps of None \<Rightarrow> None | Some p \<Rightarrow> if keep p then Some p else None)"
  using assms
proof (induction ps)
  case Nil
  then show ?case by (simp add: findById_def)
next
  case (Cons q qs)
  show ?case
  proof (cases "pid q = i")
    case True
    with Cons.prems have "i \<notin> pid ` set qs" by auto
    then have "i \<notin> pid ` set (filter keep qs)" by auto
    then have "findById i (filter keep qs) = None" by (simp add: findById_None)
    with True show ?thesis by (simp add: findById_def)
  next
    case False
    with Cons show ?thesis by (simp add: findById_def)
  qed
qed

lemma posts_updateCounts: "posts (updateCounts as s) = posts s"
  unfolding updateCounts_def
  by (induction as arbitrary: s) (simp_all add: syncAuthor_def Let_def)

lemma files_updateCounts: "files (updateCounts as s) = files s"
  unfolding updateCounts_def
  by (induction as arbitrary: s) (simp_all add: syncAuthor_def Let_def)

lemma pids_updateMany: "map pid (updateMany flt now upd ps) = map pid ps"
  by (simp add: updateMany_def applyUpdate_pid)

lemma findById_updateMany:
  "findById i (updateMany flt now upd ps) =
     map_option (\<lambda>p. if flt p then applyUpdate now upd p else p) (findById i ps)"
  unfolding updateMany_def by (rule findById_map) (simp add: applyUpdate_pid)

lemma snd_cleanup:
  "snd (cleanupExpiredPosts now1 now2 now3 s) =
     (if filter (expiredFilter (now1 - DAY_MS)) (posts s) = [] then s
      else hardDelete now3 (updateCounts (uniq (map author (filter (expiredFilter (now1 - DAY_MS)) (posts s))))
             (markInactive now1 now2 s)))"
  by (simp add: cleanupExpiredPosts_def Let_def)

lemma sweepStates_last:
  "last (sweepStates now1 now2 now3 s) = snd (cleanupExpiredPosts now1 now2 now3 s)"
  by (simp add: sweepStates_def cleanupExpiredPosts_def Let_def)

lemma files_cleanup: "files (snd (cleanupExpiredPosts now1 now2 now3 s)) = files s"
  by (simp add: snd_cleanup hardDelete_def files_updateCounts markInactive_def)

text \<open>The state of one post after a run whose batch is not empty.\<close>

lemma stateOf_markInactive:
  assumes "findById i (posts s) = Some p"
  shows "findById i (posts (markInactive now1 now2 s)) =
           Some (if expiredFilter (now1 - DAY_MS) p then p\<lparr>isActive := False, updatedAt := now2\<rparr> else p)"
  using assms by (simp add: markInactive_def findById_updateMany applyUpdate_softDelete)

lemma findById_hardDelete:
  assumes "distinct (map pid (posts s))"
  shows "findById i (posts (hardDelete now3 s)) =
           (case findById i (posts s) of None \<Rightarrow> None
            | Some q \<Rightarrow> if hardDeleteFilter (now3 - 7 * DAY_MS) q then None else Some q)"
  using findById_filter [OF assms, of i "\<lambda>p. \<not> hardDeleteFilter (now3 - 7 * DAY_MS) p"]
  by (simp add: hardDelete_def deleteMany_def split: option.splits)

lemma stateOf_sweep:
  assumes d: "distinct (map pid (posts s))"
    and f: "findById i (posts s) = Some p"
    and b: "filter (expiredFilter (now1 - DAY_MS)) (posts s) \<noteq> []"
  shows "stateOf (snd (cleanupExpiredPosts now1 now2 now3 s)) i =
           (if isActive p \<and> \<not> createdAt p < now1 - DAY_MS then Active
            else if createdAt p < now3 - 7 * DAY_MS then Purged else Expired)"
proof -
  let ?s1 = "markInactive now1 now2 s"
  let ?s2 = "updateCounts (uniq (map author (filter (expiredFilter (now1 - DAY_MS)) (posts s)))) ?s1"
  have d2: "distinct (map pid (posts ?s2))"
    using d by (simp add: posts_updateCounts markInactive_def pids_updateMany)
  have f2: "findById i (posts ?s2) =
     Some (if expiredFilter (now1 - DAY_MS) p then p\<lparr>isActive := False, updatedAt := now2\<rparr> else p)"
    using stateOf_markInactive [OF f] by (simp add: posts_updateCounts)
  show ?thesis
    using b by (simp add: snd_cleanup stateOf_def findById_hardDelete [OF d2] f2
        expiredFilter_def hardDeleteFilter_def)
qed



lemma uniq_set: "set (uniq xs) = set xs"
  by (induction xs) auto

lemma users_updateCounts_other:
  "a \<notin> set as \<Longrightarrow> users (updateCounts as s) a = users s a"
  unfolding updateCounts_def
  by (induction as arbitrary: s) (auto simp: syncAuthor_def Let_def setPostsCount_def split: option.splits)

lemma users_updateCounts_dom:
  "users (updateCounts as s) a = None \<longleftrightarrow> users s a = None"
  unfolding updateCounts_def
  by (induction as arbitrary: s) (auto simp: syncAuthor_def Let_def setPostsCount_def split: option.splits)

lemma users_syncAuthor_dom: "users (syncAuthor b s) a = None \<longleftrightarrow> users s a = None"
  by (cases "users s b") (auto simp: syncAuthor_def Let_def setPostsCount_def)

lemma users_updateCounts_mem:
  assumes "a \<in> set as" and "users s a = Some u"
  shows "\<exists>u'. users (updateCounts as s) a = Some u' \<and>
           postsCount u' = countDocuments (\<lambda>p. author p = a \<and> isActive p) (posts s)"
  using assms
proof (induction as arbitrary: s u)
  case Nil
  then show ?case by simp
next
  case (Cons b bs)
  let ?s' = "syncAuthor b s"
  have step: "updateCounts (b # bs) s = updateCounts bs ?s'"
    by (simp add: updateCounts_def)
  have ps: "posts ?s' = posts s" by (simp add: syncAuthor_def Let_def)
  show ?case
  proof (cases "a \<in> set bs")
    case True
    from Cons.prems(2) have "users ?s' a \<noteq> None" by (simp add: users_syncAuthor_dom)
    then obtain v where "users ?s' a = Some v" by blast
    from Cons.IH [OF True this] show ?thesis by (simp add: step ps)
  next
    case False
    with Cons.prems(1) have ab: "a = b" by simp
    have "users (updateCounts bs ?s') a = users ?s' a"
      using False by (rule users_updateCounts_other)
    with ab Cons.prems(2) show ?thesis
      by (simp add: step syncAuthor_def Let_def setPostsCount_def)
  qed
qed

lemma countDocuments_hardDelete:
  "countDocuments (\<lambda>p. author p = a \<and> isActive p) (posts (hardDelete now3 s)) =
   countDocuments (\<lambda>p. author p = a \<and> isActive p) (posts s)"
proof -
  have "filter (\<lambda>p. author p = a \<and> isActive p) (filter (\<lambda>p. \<not> hardDeleteFilter t p) ps) =
        filter (\<lambda>p. author p = a \<and> isActive p) ps" for t ps
    by (induction ps) (auto simp: hardDeleteFilter_def)
  then show ?thesis by (simp add: countDocuments_def hardDelete_def deleteMany_def)
qed

lemmas sweep_eval =
  cleanupExpiredPosts_def sweepDb_def quietDb_def storedPost_def DAY_MS_def expiredFilter_def
  markInactive_def updateCounts_def syncAuthor_def hardDelete_def deleteMany_def
  hardDeleteFilter_def updateMany_def applyUpdate_softDelete stateOf_def findById_def
  countDocuments_def setPostsCount_def Let_def

section \<open>The sweep\<close>

text \<open>
  Claim C7. After a sweep that expires at least one post of author \<open>a\<close>, the stored
  \<open>postsCount\<close> of \<open>a\<close> equals the number of active posts of \<open>a\<close> in the store, whatever
  the counter held before. The author has to exist in the user collection.
\<close>

theorem counter_equals_active_posts_after_sweep:
  assumes e: "q \<in> set (posts s)" "author q = a" "isActive q" "createdAt q < now1 - DAY_MS"
    and u: "users s a = Some u"
  shows "\<exists>u'. users (snd (cleanupExpiredPosts now1 now2 now3 s)) a = Some u' \<and>
           postsCount u' =
             int (length (filter (\<lambda>p. author p = a \<and> isActive p)
                            (posts (snd (cleanupExpiredPosts now1 now2 now3 s)))))"
proof -
  let ?batch = "filter (expiredFilter (now1 - DAY_MS)) (posts s)"
  let ?s1 = "markInactive now1 now2 s"
  let ?s2 = "updateCounts (uniq (map author ?batch)) ?s1"
  from e have qb: "q \<in> set ?batch" by (simp add: expiredFilter_def)
  then have ne: "?batch \<noteq> []" by (metis empty_iff empty_set)
  from qb e(2) have mem: "a \<in> set (uniq (map author ?batch))" by (auto simp: uniq_set)
  have u1: "users ?s1 a = Some u" using u by (simp add: markInactive_def)
  from users_updateCounts_mem [OF mem u1] obtain u' where
    u': "users ?s2 a = Some u'"
        "postsCount u' = countDocuments (\<lambda>p. author p = a \<and> isActive p) (posts ?s1)"
    by blast
  have s3: "snd (cleanupExpiredPosts now1 now2 now3 s) = hardDelete now3 ?s2"
    using ne by (simp add: snd_cleanup)
  have "users (hardDelete now3 ?s2) a = Some u'" using u'(1) by (simp add: hardDelete_def)
  moreover have "countDocuments (\<lambda>p. author p = a \<and> isActive p) (posts (hardDelete now3 ?s2)) =
                 countDocuments (\<lambda>p. author p = a \<and> isActive p) (posts ?s1)"
    by (simp add: countDocuments_hardDelete posts_updateCounts)
  ultimately show ?thesis using u'(2) by (simp add: s3 countDocuments_def)
qed

theorem counter_equals_active_posts_after_sweep_witness:
  "storedPost ''p1'' ''u1'' True (9 * DAY_MS - 3600000) [] \<in> set (posts sweepDb) \<and>
   users sweepDb ''u1'' = Some \<lparr>postsCount = 42\<rparr> \<and>
   users (snd (cleanupExpiredPosts (10 * DAY_MS) (10 * DAY_MS) (10 * DAY_MS) sweepDb)) ''u1''
     = Some \<lparr>postsCount = 1\<rparr> \<and>
   (\<exists>u'. users (snd (cleanupExpiredPosts (10 * DAY_MS) (10 * DAY_MS) (10 * DAY_MS) sweepDb)) ''u1'' = Some u' \<and>
      postsCount u' =
        int (length (filter (\<lambda>p. author p = ''u1'' \<and> isActive p)
               (posts (snd (cleanupExpiredPosts (10 * DAY_MS) (10 * DAY_MS) (10 * DAY_MS) sweepDb))))))"
proof -
  let ?q = "storedPost ''p1'' ''u1'' True (9 * DAY_MS - 3600000) []"
  have m: "?q \<in> set (posts sweepDb)" by (simp add: sweepDb_def)
  have a: "author ?q = ''u1''" "isActive ?q" by (simp_all add: storedPost_def)
  have c: "createdAt ?q < 10 * DAY_MS - DAY_MS" by (simp add: storedPost_def DAY_MS_def)
  have u: "users sweepDb ''u1'' = Some \<lparr>postsCount = 42\<rparr>" by (simp add: sweepDb_def)
  have v: "users (snd (cleanupExpiredPosts (10 * DAY_MS) (10 * DAY_MS) (10 * DAY_MS) sweepDb)) ''u1''
             = Some \<lparr>postsCount = 1\<rparr>"
    by (simp add: sweep_eval)
  from counter_equals_active_posts_after_sweep [OF m a c u, of "10 * DAY_MS" "10 * DAY_MS"] m u v
  show ?thesis by blast
qed

text \<open>
  Claim C6, amended. The sweep expires a post exactly when it is active and strictly older
  than 24 hours at the first clock reading: such a post is no longer active afterwards
  (Expired, or already Purged by the same run when it is also older than 7 days), and every
  other active post, one aged exactly 24 hours included, stays Active.
\<close>

theorem sweep_expires_strictly_older_than_24h:
  assumes "distinct (map pid (posts s))"
    and "findById i (posts s) = Some p"
    and "isActive p"
  shows "stateOf (snd (cleanupExpiredPosts now1 now2 now3 s)) i =
           (if createdAt p < now1 - DAY_MS
            then (if createdAt p < now3 - 7 * DAY_MS then Purged else Expired)
            else Active)"
proof (cases "filter (expiredFilter (now1 - DAY_MS)) (posts s) = []")
  case True
  from assms(2) have "p \<in> set (posts s)" by (simp add: findById_mem)
  with True have "\<not> expiredFilter (now1 - DAY_MS) p" by (auto simp: filter_empty_conv)
  with assms(3) have "\<not> createdAt p < now1 - DAY_MS" by (simp add: expiredFilter_def)
  with True assms show ?thesis by (simp add: snd_cleanup stateOf_def)
next
  case False
  from stateOf_sweep [OF assms(1,2) False] assms(3) show ?thesis by simp
qed

theorem sweep_expires_strictly_older_than_24h_witness:
  "distinct (map pid (posts sweepDb)) \<and>
   findById ''p1'' (posts sweepDb) = Some (storedPost ''p1'' ''u1'' True (9 * DAY_MS - 3600000) []) \<and>
   isActive (storedPost ''p1'' ''u1'' True (9 * DAY_MS - 3600000) []) \<and>
   stateOf (snd (cleanupExpiredPosts (10 * DAY_MS) (10 * DAY_MS) (10 * DAY_MS) sweepDb)) ''p1'' = Expired"
proof -
  let ?q = "storedPost ''p1'' ''u1'' True (9 * DAY_MS - 3600000) []"
  have d: "distinct (map pid (posts sweepDb))" by (simp add: sweepDb_def storedPost_def)
  have f: "findById ''p1'' (posts sweepDb) = Some ?q"
    by (simp add: sweepDb_def findById_def storedPost_def)
  have a: "isActive ?q" by (simp add: storedPost_def)
  have c: "createdAt ?q < 10 * DAY_MS - DAY_MS" "\<not> createdAt ?q < 10 * DAY_MS - 7 * DAY_MS"
    by (simp_all add: storedPost_def DAY_MS_def)
  from sweep_expires_strictly_older_than_24h [OF d f a, of "10 * DAY_MS" "10 * DAY_MS" "10 * DAY_MS"] c d f a
  show ?thesis by simp
qed

text \<open>
  Claim C6 as stated fails at the boundary: the active post \<open>p4\<close> is exactly 24 hours old
  when the sweep runs and is still Active afterwards.
\<close>

theorem post_aged_exactly_24h_stays_active:
  "stateOf sweepDb ''p4'' = Active \<and>
   map_option (\<lambda>p. 10 * DAY_MS - createdAt p \<ge> DAY_MS) (findById ''p4'' (posts sweepDb)) = Some True \<and>
   stateOf (snd (cleanupExpiredPosts (10 * DAY_MS) (10 * DAY_MS) (10 * DAY_MS) sweepDb)) ''p4'' = Active"
  by (simp add: sweep_eval)

lemma findById_ttlMonitor:
  assumes "distinct (map pid (posts s))"
  shows "findById i (posts (ttlMonitor now s)) =
           (case findById i (posts s) of None \<Rightarrow> None
            | Some q \<Rightarrow> if expiresAt q + expireAfterSeconds * 1000 \<le> now then None else Some q)"
  using findById_filter [OF assms, of i "\<lambda>p. \<not> expiresAt p + expireAfterSeconds * 1000 \<le> now"]
  by (simp add: ttlMonitor_def deleteMany_def split: option.splits)

lemma stateOf_present: "findById i (posts s) = Some p \<Longrightarrow> stateOf s i \<noteq> Purged"
  by (simp add: stateOf_def)

text \<open>
  A run that finds no active post older than 24 hours returns at line 44, before the
  \<open>deleteMany\<close> of line 82: the inactive post \<open>p2\<close>, older than 7 days, is still stored.
\<close>

lemma sweep_without_batch_skips_hard_delete:
  "cleanupExpiredPosts (10 * DAY_MS) (10 * DAY_MS) (10 * DAY_MS) quietDb = (None, quietDb) \<and>
   stateOf quietDb ''p2'' = Expired"
  by (simp add: sweep_eval)

text \<open>
  Claim C1, amended. In a sweep whose Active to Expired batch is not empty, every inactive
  post strictly older than 7 days at the third clock reading has its record removed from
  the store. The sweep deletes no image file: the upload directory is the same afterwards.
\<close>

theorem sweep_purges_records_only:
  assumes "distinct (map pid (posts s))"
    and "findById i (posts s) = Some p"
    and "\<not> isActive p"
    and "createdAt p < now3 - 7 * DAY_MS"
    and "q \<in> set (posts s)"
    and "expiredFilter (now1 - DAY_MS) q"
  shows "stateOf (snd (cleanupExpiredPosts now1 now2 now3 s)) i = Purged \<and>
         files (snd (cleanupExpiredPosts now1 now2 now3 s)) = files s"
proof -
  from assms(5,6) have "q \<in> set (filter (expiredFilter (now1 - DAY_MS)) (posts s))" by simp
  then have "filter (expiredFilter (now1 - DAY_MS)) (posts s) \<noteq> []" by (metis empty_iff empty_set)
  from stateOf_sweep [OF assms(1,2) this] assms(3,4) show ?thesis
    by (simp add: files_cleanup)
qed

theorem sweep_purges_records_only_witness:
  "distinct (map pid (posts sweepDb)) \<and>
   findById ''p2'' (posts sweepDb) = Some (storedPost ''p2'' ''u1'' False (3 * DAY_MS - 1) [''b.jpg'']) \<and>
   storedPost ''p1'' ''u1'' True (9 * DAY_MS - 3600000) [] \<in> set (posts sweepDb) \<and>
   expiredFilter (10 * DAY_MS - DAY_MS) (storedPost ''p1'' ''u1'' True (9 * DAY_MS - 3600000) []) \<and>
   stateOf (snd (cleanupExpiredPosts (10 * DAY_MS) (10 * DAY_MS) (10 * DAY_MS) sweepDb)) ''p2'' = Purged \<and>
   files (snd (cleanupExpiredPosts (10 * DAY_MS) (10 * DAY_MS) (10 * DAY_MS) sweepDb)) = files sweepDb"
proof -
  let ?p = "storedPost ''p2'' ''u1'' False (3 * DAY_MS - 1) [''b.jpg'']"
  let ?q = "storedPost ''p1'' ''u1'' True (9 * DAY_MS - 3600000) []"
  have d: "distinct (map pid (posts sweepDb))" by (simp add: sweepDb_def storedPost_def)
  have f: "findById ''p2'' (posts sweepDb) = Some ?p"
    by (simp add: sweepDb_def findById_def storedPost_def)
  have a: "\<not> isActive ?p" by (simp add: storedPost_def)
  have c: "createdAt ?p < 10 * DAY_MS - 7 * DAY_MS" by (simp add: storedPost_def DAY_MS_def)
  have m: "?q \<in> set (posts sweepDb)" by (simp add: sweepDb_def)
  have e: "expiredFilter (10 * DAY_MS - DAY_MS) ?q"
    by (simp add: expiredFilter_def storedPost_def DAY_MS_def)
  from sweep_purges_records_only [OF d f a c m e, of "10 * DAY_MS"] d f m e
  show ?thesis by simp
qed

text \<open>
  Claim C1 as stated fails: the sweep purges the record of \<open>p2\<close>, which owns \<open>b.jpg\<close>, and
  the file and its thumbnail are still in the upload directory afterwards; and \<open>p3\<close>, inactive
  and exactly 7 days old, is not purged.
\<close>

theorem purge_leaves_files_and_seven_day_old_post:
  "stateOf sweepDb ''p2'' = Expired \<and>
   map_option images (findById ''p2'' (posts sweepDb)) = Some [''b.jpg''] \<and>
   stateOf (snd (cleanupExpiredPosts (10 * DAY_MS) (10 * DAY_MS) (10 * DAY_MS) sweepDb)) ''p2'' = Purged \<and>
   getImage ''b.jpg'' (files (snd (cleanupExpiredPosts (10 * DAY_MS) (10 * DAY_MS) (10 * DAY_MS) sweepDb))) = 200 \<and>
   files (snd (cleanupExpiredPosts (10 * DAY_MS) (10 * DAY_MS) (10 * DAY_MS) sweepDb))
     (thumbnailPath ''b.jpg'' ''small'') = Some (jpegFile 150 150) \<and>
   stateOf sweepDb ''p3'' = Expired \<and>
   map_option (\<lambda>p. 10 * DAY_MS - createdAt p \<ge> 7 * DAY_MS) (findById ''p3'' (posts sweepDb)) = Some True \<and>
   stateOf (snd (cleanupExpiredPosts (10 * DAY_MS) (10 * DAY_MS) (10 * DAY_MS) sweepDb)) ''p3'' = Expired"
  by (simp add: sweep_eval getImage_def)

text \<open>
  Claim C4, amended. The sweep removes no record that is at most 7 days old at its third
  clock reading and removes no file, so the soft delete keeps record and files. The record
  is not kept until the purge, though: the TTL pass of the store removes it, Active or
  Expired, as soon as \<open>expiresAt\<close> is 86400 seconds in the past, which for a post saved by
  \<open>saveNew\<close> is 48 hours after its creation.
\<close>

theorem soft_delete_keeps_record_until_ttl:
  assumes "distinct (map pid (posts s))"
    and "findById i (posts s) = Some p"
    and "\<not> createdAt p < now3 - 7 * DAY_MS"
  shows "stateOf (snd (cleanupExpiredPosts now1 now2 now3 s)) i \<noteq> Purged \<and>
         files (snd (cleanupExpiredPosts now1 now2 now3 s)) = files s \<and>
         stateOf (ttlMonitor now s) i =
           (if expiresAt p + expireAfterSeconds * 1000 \<le> now then Purged else stateOf s i)"
proof -
  have "stateOf (snd (cleanupExpiredPosts now1 now2 now3 s)) i \<noteq> Purged"
  proof (cases "filter (expiredFilter (now1 - DAY_MS)) (posts s) = []")
    case True
    with assms(2) show ?thesis by (simp add: snd_cleanup stateOf_def)
  next
    case False
    from stateOf_sweep [OF assms(1,2) False] assms(3) show ?thesis by simp
  qed
  moreover have "stateOf (ttlMonitor now s) i =
           (if expiresAt p + expireAfterSeconds * 1000 \<le> now then Purged else stateOf s i)"
    using assms(2) by (simp add: stateOf_def findById_ttlMonitor [OF assms(1)])
  ultimately show ?thesis by (simp add: files_cleanup)
qed

theorem soft_delete_keeps_record_until_ttl_witness:
  "distinct (map pid (posts sweepDb)) \<and>
   findById ''p1'' (posts sweepDb) = Some (storedPost ''p1'' ''u1'' True (9 * DAY_MS - 3600000) []) \<and>
   \<not> createdAt (storedPost ''p1'' ''u1'' True (9 * DAY_MS - 3600000) []) < 10 * DAY_MS - 7 * DAY_MS \<and>
   stateOf (snd (cleanupExpiredPosts (10 * DAY_MS) (10 * DAY_MS) (10 * DAY_MS) sweepDb)) ''p1'' \<noteq> Purged \<and>
   files (snd (cleanupExpiredPosts (10 * DAY_MS) (10 * DAY_MS) (10 * DAY_MS) sweepDb)) = files sweepDb \<and>
   stateOf (ttlMonitor (11 * DAY_MS) sweepDb) ''p1'' = Purged"
proof -
  let ?q = "storedPost ''p1'' ''u1'' True (9 * DAY_MS - 3600000) []"
  have d: "distinct (map pid (posts sweepDb))" by (simp add: sweepDb_def storedPost_def)
  have f: "findById ''p1'' (posts sweepDb) = Some ?q"
    by (simp add: sweepDb_def findById_def storedPost_def)
  have c: "\<not> createdAt ?q < 10 * DAY_MS - 7 * DAY_MS" by (simp add: storedPost_def DAY_MS_def)
  have t: "expiresAt ?q + expireAfterSeconds * 1000 \<le> 11 * DAY_MS"
    by (simp add: storedPost_def DAY_MS_def expireAfterSeconds_def)
  from soft_delete_keeps_record_until_ttl [OF d f c, of "10 * DAY_MS" "10 * DAY_MS" "11 * DAY_MS"] d f c t
  show ?thesis by simp
qed

text \<open>
  Claim C4 as stated fails: a post created at time 0 is Expired by the sweep at 25 hours,
  and at 49 hours, long before it is 7 days old, the TTL pass has removed its record.
\<close>

theorem expired_post_removed_after_48h:
  "(let s1 = snd (createPost ''p1'' 0 ''u1'' ''hello'' None None [] emptyDb);
        s2 = snd (cleanupExpiredPosts (DAY_MS + 3600000) (DAY_MS + 3600000) (DAY_MS + 3600000) s1);
        s3 = ttlMonitor (2 * DAY_MS + 3600000) s2
    in stateOf s1 ''p1'' = Active \<and> stateOf s2 ''p1'' = Expired \<and> stateOf s3 ''p1'' = Purged \<and>
       2 * DAY_MS + 3600000 < 7 * DAY_MS)"
  by (simp add: sweep_eval createPost_def emptyDb_def orElse_def validFields_def categories_def
      saveNew_def incPostsCount_def ttlMonitor_def expireAfterSeconds_def)

text \<open>
  Claim C9 fails on the code. The update document of the soft delete names \<open>deletedAt\<close>,
  but the schema declares no such path, so the cast drops it: the post \<open>p1\<close> that the sweep
  has just expired reads back inactive and without a \<open>deletedAt\<close>.
\<close>

theorem sweep_does_not_persist_deletedAt:
  "softDeleteUpdate (10 * DAY_MS) = [(''isActive'', VBool False), (''deletedAt'', VDate (10 * DAY_MS))] \<and>
   castUpdate (softDeleteUpdate (10 * DAY_MS)) = [(''isActive'', VBool False)] \<and>
   stateOf sweepDb ''p1'' = Active \<and>
   map_option (\<lambda>p. (readPath p ''isActive'', readPath p ''deletedAt''))
     (findById ''p1'' (posts (snd (cleanupExpiredPosts (10 * DAY_MS) (10 * DAY_MS) (10 * DAY_MS) sweepDb))))
     = Some (Some (VBool False), None)"
proof -
  have "softDeleteUpdate (10 * DAY_MS) = [(''isActive'', VBool False), (''deletedAt'', VDate (10 * DAY_MS))]"
    by (simp add: softDeleteUpdate_def)
  moreover have "castUpdate (softDeleteUpdate (10 * DAY_MS)) = [(''isActive'', VBool False)]"
    by (rule castUpdate_softDelete)
  moreover have "stateOf sweepDb ''p1'' = Active"
    by (simp add: sweep_eval)
  moreover have "map_option (\<lambda>p. (readPath p ''isActive'', readPath p ''deletedAt''))
     (findById ''p1'' (posts (snd (cleanupExpiredPosts (10 * DAY_MS) (10 * DAY_MS) (10 * DAY_MS) sweepDb))))
     = Some (Some (VBool False), None)"
    by (simp add: sweep_eval readPath_def postDoc_def)
  ultimately show ?thesis by blast
qed

section \<open>Monotonic post state\<close>


lemma pids_findOneAndUpdate: "map pid (findOneAndUpdate flt now upd ps) = map pid ps"
  by (induction ps) (simp_all add: applyUpdate_pid)

lemma findById_findOneAndUpdate:
  "findById i (findOneAndUpdate flt now upd ps) = findById i ps \<or>
   (\<exists>p. findById i ps = Some p \<and>
        findById i (findOneAndUpdate flt now upd ps) = Some (applyUpdate now upd p))"
  by (induction ps) (auto simp: findById_def applyUpdate_pid)

lemma legalStep_refl: "legalStep d a a"
  by (simp add: legalStep_def)

lemma legal_findOneAndUpdate:
  assumes "\<And>p. isActive (applyUpdate now upd p) \<Longrightarrow> isActive p"
    and "posts s' = findOneAndUpdate flt now upd (posts s)"
  shows "legalStep d (stateOf s i) (stateOf s' i)"
proof -
  from findById_findOneAndUpdate [of i flt now upd "posts s"]
  consider "findById i (posts s') = findById i (posts s)"
    | p where "findById i (posts s) = Some p" "findById i (posts s') = Some (applyUpdate now upd p)"
    using assms(2) by auto
  then show ?thesis
  proof cases
    case 1
    then show ?thesis by (simp add: stateOf_def legalStep_def)
  next
    case 2
    with assms(1) [of p] show ?thesis by (auto simp: stateOf_def legalStep_def)
  qed
qed

lemma findById_findByIdAndDelete:
  assumes "distinct (map pid ps)"
  shows "findById i (findByIdAndDelete j ps) = (if i = j then None else findById i ps)"
  using assms
proof (induction ps)
  case Nil
  then show ?case by (simp add: findById_def)
next
  case (Cons q qs)
  show ?case
  proof (cases "pid q = j")
    case True
    with Cons.prems have "j \<notin> pid ` set qs" by auto
    then have "findById j qs = None" by (simp add: findById_None)
    with True show ?thesis by (auto simp: findById_def)
  next
    case False
    with Cons show ?thesis by (auto simp: findById_def)
  qed
qed

lemma set_findByIdAndDelete: "set (findByIdAndDelete j ps) \<subseteq> set ps"
  by (induction ps) auto

lemma distinct_findByIdAndDelete:
  "distinct (map pid ps) \<Longrightarrow> distinct (map pid (findByIdAndDelete j ps))"
proof (induction ps)
  case Nil
  then show ?case by simp
next
  case (Cons q qs)
  from set_findByIdAndDelete [of j qs] have "pid ` set (findByIdAndDelete j qs) \<subseteq> pid ` set qs"
    by blast
  with Cons show ?case by auto
qed


lemma softDelete_not_active: "\<not> isActive (applyUpdate now [(''isActive'', VBool False)] p)"
  by (simp add: applyUpdate_def castUpdate_def postSchemaPaths_def)

lemma updatePost_keys_keep_isActive:
  "isActive (applyUpdate now [(''content'', VString c), (''category'', VString cat),
       (''tags'', VStrings ts), (''updatedAt'', VDate now')] p) = isActive p"
  by (rule applyUpdate_isActive) simp

lemma legal_sweep:
  assumes "distinct (map pid (posts s))"
  shows "chainLegal d i (sweepStates now1 now2 now3 s)"
proof (cases "filter (expiredFilter (now1 - DAY_MS)) (posts s) = []")
  case True
  then show ?thesis by (simp add: sweepStates_def)
next
  case False
  let ?s1 = "markInactive now1 now2 s"
  let ?s2 = "updateCounts (uniq (map author (filter (expiredFilter (now1 - DAY_MS)) (posts s)))) ?s1"
  let ?s3 = "hardDelete now3 ?s2"
  have st: "sweepStates now1 now2 now3 s = [s, ?s1, ?s2, ?s3]"
    using False by (simp add: sweepStates_def Let_def)
  have a: "legalStep d (stateOf s i) (stateOf ?s1 i)"
    by (cases "findById i (posts s)")
       (simp_all add: stateOf_def markInactive_def findById_updateMany applyUpdate_softDelete legalStep_def)
  have b: "stateOf ?s2 i = stateOf ?s1 i"
    by (simp add: stateOf_def posts_updateCounts)
  have d2: "distinct (map pid (posts ?s2))"
    using assms by (simp add: posts_updateCounts markInactive_def pids_updateMany)
  have c: "legalStep d (stateOf ?s2 i) (stateOf ?s3 i)"
    by (cases "findById i (posts ?s2)")
       (simp_all add: stateOf_def findById_hardDelete [OF d2] hardDeleteFilter_def legalStep_def)
  from a b c show ?thesis by (simp add: st legalStep_refl)
qed

lemma legal_request:
  assumes "distinct (map pid (posts s))"
  shows "chainLegal (purgeLicence r s i) i (observed r s)"
proof (cases r)
  case (Sweep now1 now2 now3)
  with legal_sweep [OF assms] show ?thesis by simp
next
  case (UpdatePost now postId userId c cat ts)
  have "legalStep False (stateOf s i) (stateOf (snd (updatePost now postId userId c cat ts s)) i)"
    by (auto simp: updatePost_def Let_def legalStep_refl
        intro!: legal_findOneAndUpdate [where now = now] simp: updatePost_keys_keep_isActive)
  with UpdatePost show ?thesis by simp
next
  case (DeletePost now postId userId)
  have "legalStep False (stateOf s i) (stateOf (snd (deletePost now postId userId s)) i)"
    by (auto simp: deletePost_def Let_def legalStep_refl softDelete_not_active
        intro!: legal_findOneAndUpdate [where now = now and upd = "[(''isActive'', VBool False)]"])
  with DeletePost show ?thesis by simp
next
  case (UpdatePostV2 now postId userId c cat ts)
  define upd where "upd =
      (case c of None \<Rightarrow> [] | Some v \<Rightarrow> if v = [] then [] else [(''content'', VString v)])
    @ (case cat of None \<Rightarrow> [] | Some v \<Rightarrow> if v = [] then [] else [(''category'', VString v)])
    @ (case ts of None \<Rightarrow> [] | Some v \<Rightarrow> [(''tags'', VStrings v)])"
  let ?s' = "snd (updatePost_v2 now postId userId c cat ts s)"
  have k: "''isActive'' \<notin> fst ` set upd" by (auto simp: upd_def split: option.splits)
  have "posts ?s' = posts s \<or> posts ?s' = findOneAndUpdate (\<lambda>q. pid q = postId) now upd (posts s)"
    unfolding updatePost_v2_def Let_def upd_def [symmetric]
    by (cases "findById postId (posts s)") auto
  then have "legalStep False (stateOf s i) (stateOf ?s' i)"
  proof
    assume "posts ?s' = posts s"
    then show ?thesis by (simp add: stateOf_def legalStep_def)
  next
    assume "posts ?s' = findOneAndUpdate (\<lambda>q. pid q = postId) now upd (posts s)"
    then show ?thesis
      by (rule legal_findOneAndUpdate [rotated]) (simp add: applyUpdate_isActive [OF k])
  qed
  with UpdatePostV2 show ?thesis by simp
next
  case (DeletePostV2 postId userId)
  have "legalStep (purgeLicence (DeletePostV2 postId userId) s i)
          (stateOf s i) (stateOf (snd (deletePost_v2 postId userId s)) i)"
    by (auto simp: deletePost_v2_def stateOf_def legalStep_def findById_findByIdAndDelete [OF assms]
        split: option.splits)
  with DeletePostV2 show ?thesis by simp
next
  case (TtlPass now)
  have "legalStep (purgeLicence (TtlPass now) s i) (stateOf s i) (stateOf (ttlMonitor now s) i)"
    by (auto simp: stateOf_def legalStep_def findById_ttlMonitor [OF assms] split: option.splits)
  with TtlPass show ?thesis by simp
qed

lemma distinct_after_request:
  assumes "distinct (map pid (posts s))"
  shows "distinct (map pid (posts (last (observed r s))))"
proof (cases r)
  case (Sweep now1 now2 now3)
  have "distinct (map pid (posts (snd (cleanupExpiredPosts now1 now2 now3 s))))"
    using assms
    by (simp add: snd_cleanup hardDelete_def deleteMany_def posts_updateCounts markInactive_def
        pids_updateMany distinct_map_filter)
  with Sweep show ?thesis by (simp add: sweepStates_last)
next
  case (UpdatePost now postId userId c cat ts)
  with assms show ?thesis by (simp add: updatePost_def Let_def pids_findOneAndUpdate)
next
  case (DeletePost now postId userId)
  with assms show ?thesis by (simp add: deletePost_def Let_def pids_findOneAndUpdate)
next
  case (UpdatePostV2 now postId userId c cat ts)
  with assms show ?thesis
    by (simp add: updatePost_v2_def Let_def pids_findOneAndUpdate split: option.splits)
next
  case (DeletePostV2 postId userId)
  with assms show ?thesis
    by (simp add: deletePost_v2_def distinct_findByIdAndDelete split: option.splits)
next
  case (TtlPass now)
  with assms show ?thesis
    by (simp add: ttlMonitor_def deleteMany_def distinct_map_filter)
qed

text \<open>
  Claim C8, amended. Through any sequence of sweeps, post updates, explicit deletes (both
  controllers) and TTL passes of the store, every step a post is observed to take, at each
  write of the store, is Active to Expired, Expired to Purged or no change; Active to
  Purged is taken only by the post that an explicit delete names, on behalf of its author,
  and by a post that the TTL pass removes because its \<open>expiresAt\<close> is 86400 seconds or more
  in the past. No step leads from Expired back to Active or out of Purged. Post ids are
  unique in the collection.
\<close>

theorem post_state_is_monotonic:
  assumes "distinct (map pid (posts s))"
  shows "traceLegal i rs s"
  using assms
proof (induction rs arbitrary: s)
  case Nil
  then show ?case by simp
next
  case (Cons r rs)
  from Cons.prems have "chainLegal (purgeLicence r s i) i (observed r s)" by (rule legal_request)
  moreover from Cons.prems have "distinct (map pid (posts (last (observed r s))))"
    by (rule distinct_after_request)
  then have "traceLegal i rs (last (observed r s))" by (rule Cons.IH)
  ultimately show ?case by simp
qed

theorem post_state_is_monotonic_witness:
  "distinct (map pid (posts sweepDb)) \<and>
   traceLegal ''p4''
     [UpdatePost (10 * DAY_MS) ''p4'' ''u1'' ''edited'' None None,
      Sweep (10 * DAY_MS) (10 * DAY_MS) (10 * DAY_MS),
      DeletePost (10 * DAY_MS) ''p4'' ''u1'',
      UpdatePost (10 * DAY_MS) ''p4'' ''u1'' ''again'' None None,
      TtlPass (10 * DAY_MS),
      UpdatePostV2 (10 * DAY_MS) ''p4'' ''u1'' None None (Some [''tag'']),
      DeletePostV2 ''p4'' ''u1'',
      TtlPass (20 * DAY_MS)] sweepDb \<and>
   stateOf (snd (deletePost (10 * DAY_MS) ''p4'' ''u1'' sweepDb)) ''p4'' = Expired \<and>
   stateOf (snd (deletePost_v2 ''p4'' ''u1'' sweepDb)) ''p4'' = Purged \<and>
   purgeLicence (DeletePostV2 ''p4'' ''u1'') sweepDb ''p4'' \<and>
   \<not> purgeLicence (DeletePostV2 ''p4'' ''u1'') sweepDb ''p1'' \<and>
   \<not> purgeLicence (DeletePostV2 ''p4'' ''u2'') sweepDb ''p4''"
proof -
  have d: "distinct (map pid (posts sweepDb))" by (simp add: sweepDb_def storedPost_def)
  have e: "stateOf (snd (deletePost (10 * DAY_MS) ''p4'' ''u1'' sweepDb)) ''p4'' = Expired"
    by (simp add: deletePost_def sweepDb_def storedPost_def stateOf_def findById_def
        softDelete_not_active applyUpdate_pid)
  have p: "stateOf (snd (deletePost_v2 ''p4'' ''u1'' sweepDb)) ''p4'' = Purged"
    by (simp add: deletePost_v2_def sweepDb_def storedPost_def stateOf_def findById_def)
  have l: "purgeLicence (DeletePostV2 ''p4'' ''u1'') sweepDb ''p4''"
    "\<not> purgeLicence (DeletePostV2 ''p4'' ''u1'') sweepDb ''p1''"
    "\<not> purgeLicence (DeletePostV2 ''p4'' ''u2'') sweepDb ''p4''"
    by (simp_all add: sweepDb_def storedPost_def findById_def)
  from post_state_is_monotonic [OF d] d e p l show ?thesis by blast
qed

text \<open>
  Claim C8 as stated fails: the post \<open>p1\<close> is Active, no request deletes it, and the TTL pass
  at 11 days, when \<open>p1\<close> is 49 hours old, removes its record. The states observed for \<open>p1\<close> are
  Active and then Purged, a step that is legal only with the licence of an explicit delete.
\<close>

theorem ttl_pass_purges_active_post:
  "map (\<lambda>s. stateOf s ''p1'') (observed (TtlPass (11 * DAY_MS)) sweepDb) = [Active, Purged] \<and>
   \<not> legalStep False Active Purged \<and>
   map_option (\<lambda>p. 11 * DAY_MS - createdAt p) (findById ''p1'' (posts sweepDb)) = Some (49 * 3600000)"
  by (simp add: ttlMonitor_def deleteMany_def expireAfterSeconds_def sweepDb_def storedPost_def
      DAY_MS_def stateOf_def findById_def legalStep_def)

section \<open>Image deletion and ingestion\<close>

lemmas path_eval = joinUpload_def uploadPath_def thumbnailPath_def parseName_def extname_def Let_def

lemmas image_eval =
  processImage_def thumbnailSizes_def pngUpload_def neverFails_def pngFile_def jpegFile_def
  resizeCover_def jpeg_def getImage_def

lemma unlinkThumbnails_apply:
  "unlinkThumbnails f fs p =
     (if p = thumbnailPath f ''small'' \<or> p = thumbnailPath f ''medium'' \<or> p = thumbnailPath f ''large''
      then None else fs p)"
  by (simp add: unlinkThumbnails_def unlinkIgnore_def thumbnailSizes_def)

text \<open>
  Claim C2, amended. A delete of an asset whose original file is stored answers 200 and
  leaves neither the original nor any derivative behind. A second delete of the same name
  answers 404 and changes nothing: the handler answers 404 whenever the original is absent,
  also when an earlier delete removed it.
\<close>

theorem deleteImage_twice:
  assumes "fs (joinUpload f) = Some d"
  shows "fst (deleteImage f fs) = 200 \<and>
         snd (deleteImage f fs) (joinUpload f) = None \<and>
         map (\<lambda>sz. snd (deleteImage f fs) (thumbnailPath f sz)) (map fst thumbnailSizes) = [None, None, None] \<and>
         deleteImage f (snd (deleteImage f fs)) = (404, snd (deleteImage f fs))"
proof -
  have r: "deleteImage f fs = (200, unlinkThumbnails f (fs(joinUpload f := None)))"
    using assms by (simp add: deleteImage_def)
  have gone: "unlinkThumbnails f (fs(joinUpload f := None)) (joinUpload f) = None"
    by (simp add: unlinkThumbnails_apply)
  have "deleteImage f (unlinkThumbnails f (fs(joinUpload f := None))) =
          (404, unlinkThumbnails f (fs(joinUpload f := None)))"
    using gone by (simp add: deleteImage_def)
  with gone show ?thesis
    by (simp add: r unlinkThumbnails_apply thumbnailSizes_def)
qed

theorem deleteImage_twice_witness:
  "assetFiles (joinUpload ''a.jpg'') = Some (jpegFile 1000 800) \<and>
   fst (deleteImage ''a.jpg'' assetFiles) = 200 \<and>
   snd (deleteImage ''a.jpg'' assetFiles) (joinUpload ''a.jpg'') = None \<and>
   map (\<lambda>sz. snd (deleteImage ''a.jpg'' assetFiles) (thumbnailPath ''a.jpg'' sz)) (map fst thumbnailSizes)
     = [None, None, None] \<and>
   deleteImage ''a.jpg'' (snd (deleteImage ''a.jpg'' assetFiles)) = (404, snd (deleteImage ''a.jpg'' assetFiles))"
proof -
  have h: "assetFiles (joinUpload ''a.jpg'') = Some (jpegFile 1000 800)"
    by (simp add: assetFiles_def path_eval)
  from deleteImage_twice [of assetFiles "''a.jpg''" "jpegFile 1000 800", OF h] h show ?thesis by simp
qed

text \<open>
  Claim C2 as stated fails: \<open>a.jpg\<close> is stored, its first delete answers 200 and its
  second delete answers 404.
\<close>

theorem second_delete_reports_not_found:
  "getImage ''a.jpg'' assetFiles = 200 \<and>
   fst (deleteImage ''a.jpg'' assetFiles) = 200 \<and>
   fst (deleteImage ''a.jpg'' (snd (deleteImage ''a.jpg'' assetFiles))) = 404"
  by (simp add: getImage_def deleteImage_def assetFiles_def unlinkThumbnails_apply path_eval)


lemma makeThumbnails_keeps_files:
  "makeThumbnails fails baseUrl file szs fs = (r, fs') \<Longrightarrow> fs p \<noteq> None \<Longrightarrow> fs' p \<noteq> None"
proof (induction szs arbitrary: fs r fs')
  case Nil
  then show ?case by simp
next
  case (Cons a szs)
  obtain sz w h where a: "a = (sz, w, h)" by (cases a) auto
  show ?case
  proof (cases "fs (fpath file)")
    case None
    with Cons.prems a show ?thesis by simp
  next
    case (Some src)
    show ?thesis
    proof (cases "fails (thumbnailPath (filename file) sz)")
      case True
      with Cons.prems a Some show ?thesis by simp
    next
      case False
      let ?fs1 = "fs(thumbnailPath (filename file) sz \<mapsto> jpeg 85 (resizeCover w h src))"
      obtain r1 fs1' where m: "makeThumbnails fails baseUrl file szs ?fs1 = (r1, fs1')"
        by (cases "makeThumbnails fails baseUrl file szs ?fs1") auto
      from Cons.prems(2) have "?fs1 p \<noteq> None" by simp
      with Cons.IH [OF m] have k: "fs1' p \<noteq> None" by simp
      from Cons.prems(1) a Some False m have "fs' = fs1'"
        by (cases r1) (auto simp: Let_def)
      with k show ?thesis by simp
    qed
  qed
qed

lemma processFiles_keeps_files:
  "processFiles fails baseUrl fls fs = (r, fs') \<Longrightarrow> fs p \<noteq> None \<Longrightarrow> fs' p \<noteq> None"
proof (induction fls arbitrary: fs r fs')
  case Nil
  then show ?case by simp
next
  case (Cons u fls)
  obtain r1 fs1 where m: "makeThumbnails fails baseUrl u thumbnailSizes fs = (r1, fs1)"
    by (cases "makeThumbnails fails baseUrl u thumbnailSizes fs") auto
  from makeThumbnails_keeps_files [OF m Cons.prems(2)] have k1: "fs1 p \<noteq> None" .
  show ?case
  proof (cases r1)
    case (Inl e)
    with Cons.prems(1) m k1 show ?thesis by auto
  next
    case (Inr thumbs)
    show ?thesis
    proof (cases "fs1 (fpath u)")
      case None
      with Cons.prems(1) m Inr k1 show ?thesis by auto
    next
      case (Some src)
      obtain r2 fs2 where n: "processFiles fails baseUrl fls fs1 = (r2, fs2)"
        by (cases "processFiles fails baseUrl fls fs1") auto
      from Cons.IH [OF n k1] have k2: "fs2 p \<noteq> None" .
      from Cons.prems(1) m Inr Some n have "fs' = fs2" by (cases r2) auto
      with k2 show ?thesis by simp
    qed
  qed
qed

text \<open>
  Whatever \<open>processImage\<close> returns, every file that was stored before is stored afterwards:
  a failed run removes neither the original nor the derivatives already written.
\<close>

lemma processImage_keeps_files:
  "processImage fails baseUrl req fs = (r, fs') \<Longrightarrow> fs p \<noteq> None \<Longrightarrow> fs' p \<noteq> None"
  by (cases req) (auto simp: processImage_def dest: processFiles_keeps_files)

text \<open>
  Claim C3 fails on the code. The large derivative of the upload \<open>a.png\<close> cannot be
  written: \<open>processImage\<close> returns the error, and the original and the small and medium
  derivatives are still found afterwards. \<open>cleanupFiles\<close>, which no code calls, would have
  removed them.
\<close>

theorem failed_ingestion_leaves_files:
  "fst (processImage largeFails ''http://host'' (Some [pngUpload]) pngDir)
     = Inl (SharpFailure (thumbnailPath ''a.png'' ''large'')) \<and>
   map (\<lambda>f. getImage f (snd (processImage largeFails ''http://host'' (Some [pngUpload]) pngDir)))
     [''a.png'', ''a_small.png'', ''a_medium.png'', ''a_large.png''] = [200, 200, 200, 404] \<and>
   map (\<lambda>f. getImage f (cleanupFiles [pngUpload]
                (snd (processImage largeFails ''http://host'' (Some [pngUpload]) pngDir))))
     [''a.png'', ''a_small.png'', ''a_medium.png'', ''a_large.png''] = [404, 404, 404, 404]"
  by (simp add: processImage_def thumbnailSizes_def pngUpload_def pngDir_def largeFails_def
      getImage_def unlinkThumbnails_apply path_eval)


lemma last_dot_split:
  assumes "CHR ''.'' \<in> set f"
  shows "\<exists>pre. f = pre @ CHR ''.'' # rev (takeWhile (\<lambda>c. c \<noteq> CHR ''.'') (rev f))"
proof -
  let ?P = "\<lambda>c. c \<noteq> CHR ''.''"
  from assms have "dropWhile ?P (rev f) \<noteq> []" by (simp add: dropWhile_eq_Nil_conv)
  then obtain c rest where dw: "dropWhile ?P (rev f) = c # rest" by (cases "dropWhile ?P (rev f)") auto
  with hd_dropWhile [of ?P "rev f"] have "c = CHR ''.''" by force
  with dw have "rev f = takeWhile ?P (rev f) @ CHR ''.'' # rest"
    by (metis takeWhile_dropWhile_id)
  then have "f = rev rest @ CHR ''.'' # rev (takeWhile ?P (rev f))"
    by (metis rev_append rev.simps(2) rev_rev_ident append.assoc append_Cons append_Nil)
  then show ?thesis by blast
qed

lemma dot_free_tail: "CHR ''.'' \<notin> set (rev (takeWhile (\<lambda>c. c \<noteq> CHR ''.'') (rev f)))"
  by (auto dest: set_takeWhileD)

lemma last_dot_unique:
  assumes "a @ CHR ''.'' # t = a' @ CHR ''.'' # t'" and "CHR ''.'' \<notin> set t" and "CHR ''.'' \<notin> set t'"
  shows "a = a' \<and> t = t'"
proof -
  let ?P = "\<lambda>c. c \<noteq> CHR ''.''"
  from assms(1) have "rev t @ CHR ''.'' # rev a = rev t' @ CHR ''.'' # rev a'"
    by (metis rev_append rev.simps(2) append.assoc append_Cons append_Nil)
  moreover have "takeWhile ?P (rev t @ CHR ''.'' # rev a) = rev t"
    using assms(2) by (auto simp: takeWhile_tail)
  moreover have "takeWhile ?P (rev t' @ CHR ''.'' # rev a') = rev t'"
    using assms(3) by (auto simp: takeWhile_tail)
  ultimately have "rev t = rev t'" by simp
  then have "t = t'" by simp
  with assms(1) show ?thesis by simp
qed

lemma extname_cases:
  obtains (none) "extname f = []" "parseName f = f"
      "CHR ''.'' \<notin> set f \<or> (\<exists>r. f = CHR ''.'' # r \<and> CHR ''.'' \<notin> set r) \<or> f = ''..''"
    | (some) pre t where "f = pre @ CHR ''.'' # t" "CHR ''.'' \<notin> set t" "extname f = CHR ''.'' # t"
      "parseName f = pre"
proof (cases "CHR ''.'' \<in> set f")
  case False
  then have "extname f = []" by (simp add: extname_def)
  then show ?thesis using False none by (simp add: parseName_def)
next
  case True
  let ?t = "rev (takeWhile (\<lambda>c. c \<noteq> CHR ''.'') (rev f))"
  from last_dot_split [OF True] obtain pre where f: "f = pre @ CHR ''.'' # ?t" by blast
  have nt: "CHR ''.'' \<notin> set ?t" by (rule dot_free_tail)
  have len: "length f = length pre + Suc (length ?t)" by (subst f) simp
  show ?thesis
  proof (cases "pre = [] \<or> f = ''..''")
    case True
    then have e: "extname f = []" using len by (auto simp: extname_def Let_def)
    from True f nt have "(\<exists>r. f = CHR ''.'' # r \<and> CHR ''.'' \<notin> set r) \<or> f = ''..''"
      by (metis append_Nil)
    with e show ?thesis using none by (simp add: parseName_def)
  next
    case False
    then have "extname f = drop (length f - Suc (length ?t)) f"
      using True len by (auto simp: extname_def Let_def)
    also have "length f - Suc (length ?t) = length pre" using len by simp
    also have "drop (length pre) f = CHR ''.'' # ?t" by (subst f) simp
    finally have e: "extname f = CHR ''.'' # ?t" .
    have "parseName f = take (length pre) f" using len by (simp add: parseName_def e)
    also have "\<dots> = pre" by (subst f) simp
    finally show ?thesis using some [OF f nt e] by simp
  qed
qed


lemma profile_names: "sz \<in> fst ` set thumbnailSizes \<longleftrightarrow> sz = ''small'' \<or> sz = ''medium'' \<or> sz = ''large''"
  by (auto simp: thumbnailSizes_def)

lemma profile_suffix_inj:
  assumes "n1 @ ''_'' @ sz1 = n2 @ ''_'' @ sz2"
    and "sz1 \<in> fst ` set thumbnailSizes" and "sz2 \<in> fst ` set thumbnailSizes"
  shows "sz1 = sz2"
proof -
  from assms(1) have "rev (n1 @ ''_'' @ sz1) = rev (n2 @ ''_'' @ sz2)" by simp
  then have "rev sz1 @ CHR ''_'' # rev n1 = rev sz2 @ CHR ''_'' # rev n2" by simp
  with assms(2,3) show ?thesis by (auto simp: profile_names)
qed

lemma profile_dot_free: "sz \<in> fst ` set thumbnailSizes \<Longrightarrow> CHR ''.'' \<notin> set (''_'' @ sz)"
  by (auto simp: profile_names)

lemma thumbnailPath_profile_inj:
  assumes eq: "thumbnailPath f1 sz1 = thumbnailPath f2 sz2"
    and s1: "sz1 \<in> fst ` set thumbnailSizes" and s2: "sz2 \<in> fst ` set thumbnailSizes"
  shows "sz1 = sz2"
proof -
  from eq have X: "parseName f1 @ ''_'' @ sz1 @ extname f1 = parseName f2 @ ''_'' @ sz2 @ extname f2"
    by (simp add: thumbnailPath_def joinUpload_def)
  have mixed: "False"
    if e: "extname g = []" "parseName g = g"
      "CHR ''.'' \<notin> set g \<or> (\<exists>r. g = CHR ''.'' # r \<and> CHR ''.'' \<notin> set r) \<or> g = ''..''"
    and Y: "g @ ''_'' @ a = (pre @ ''_'' @ b) @ CHR ''.'' # t"
    and a: "CHR ''.'' \<notin> set (''_'' @ a)" and t: "CHR ''.'' \<notin> set t"
    for g a pre b t
  proof -
    from e(3) consider "CHR ''.'' \<notin> set g" | r where "g = CHR ''.'' # r" "CHR ''.'' \<notin> set r" | "g = ''..''"
      by blast
    then show False
    proof cases
      case 1
      with a have "CHR ''.'' \<notin> set (g @ ''_'' @ a)" by simp
      with Y show False by (metis in_set_conv_decomp)
    next
      case 2
      with Y have "[] @ CHR ''.'' # (r @ ''_'' @ a) = (pre @ ''_'' @ b) @ CHR ''.'' # t" by simp
      moreover from 2(2) a have "CHR ''.'' \<notin> set (r @ ''_'' @ a)" by simp
      ultimately have "[] = pre @ ''_'' @ b" using t by (rule last_dot_unique [THEN conjunct1])
      then show False by simp
    next
      case 3
      with Y have "''.'' @ CHR ''.'' # (''_'' @ a) = (pre @ ''_'' @ b) @ CHR ''.'' # t" by simp
      then have "''.'' = pre @ ''_'' @ b" using a t by (rule last_dot_unique [THEN conjunct1])
      then show False by (cases pre) auto
    qed
  qed
  show ?thesis
  proof (cases f1 rule: extname_cases)
    case none
    note n1 = none
    show ?thesis
    proof (cases f2 rule: extname_cases)
      case none
      from X n1(1,2) none(1,2) have "f1 @ ''_'' @ sz1 = f2 @ ''_'' @ sz2" by simp
      from profile_suffix_inj [OF this s1 s2] show ?thesis .
    next
      case (some pre t)
      from X n1 some have "f1 @ ''_'' @ sz1 = (pre @ ''_'' @ sz2) @ CHR ''.'' # t" by simp
      from mixed [OF n1 this profile_dot_free [OF s1] some(2)] show ?thesis ..
    qed
  next
    case (some pre1 t1)
    note sm1 = some
    show ?thesis
    proof (cases f2 rule: extname_cases)
      case none
      from X sm1 none have "f2 @ ''_'' @ sz2 = (pre1 @ ''_'' @ sz1) @ CHR ''.'' # t1" by simp
      from mixed [OF none this profile_dot_free [OF s2] sm1(2)] show ?thesis ..
    next
      case (some pre2 t2)
      from X sm1 some have "(pre1 @ ''_'' @ sz1) @ CHR ''.'' # t1 = (pre2 @ ''_'' @ sz2) @ CHR ''.'' # t2"
        by simp
      from last_dot_unique [OF this sm1(2) some(2)] have "pre1 @ ''_'' @ sz1 = pre2 @ ''_'' @ sz2" by simp
      from profile_suffix_inj [OF this s1 s2] show ?thesis .
    qed
  qed
qed


lemma profile_dims_unique:
  "(sz, w, h) \<in> set thumbnailSizes \<Longrightarrow> (sz, w', h') \<in> set thumbnailSizes \<Longrightarrow> w = w' \<and> h = h'"
  by (auto simp: thumbnailSizes_def)

lemma write_keeps_dims:
  assumes "(sz0, w0, h0) \<in> set thumbnailSizes" and "(sz, w, h) \<in> set thumbnailSizes"
    and "\<exists>d. fs (thumbnailPath f sz) = Some d \<and> width d = w \<and> height d = h"
  shows "\<exists>d. (fs(thumbnailPath g sz0 \<mapsto> jpeg 85 (resizeCover w0 h0 src))) (thumbnailPath f sz) = Some d
             \<and> width d = w \<and> height d = h"
proof (cases "thumbnailPath g sz0 = thumbnailPath f sz")
  case True
  from assms(1,2) have "sz0 \<in> fst ` set thumbnailSizes" "sz \<in> fst ` set thumbnailSizes" by force+
  from thumbnailPath_profile_inj [OF True this] have "sz0 = sz" .
  with assms(1,2) have "w0 = w \<and> h0 = h" by (auto dest: profile_dims_unique)
  with True show ?thesis by (simp add: jpeg_def resizeCover_def)
next
  case False
  with assms(3) show ?thesis by simp
qed

lemma makeThumbnails_keeps_dims:
  assumes "makeThumbnails fails baseUrl file szs fs = (r, fs')"
    and "set szs \<subseteq> set thumbnailSizes"
    and "(sz, w, h) \<in> set thumbnailSizes"
    and "\<exists>d. fs (thumbnailPath f sz) = Some d \<and> width d = w \<and> height d = h"
  shows "\<exists>d. fs' (thumbnailPath f sz) = Some d \<and> width d = w \<and> height d = h"
  using assms(1,2,4)
proof (induction szs arbitrary: fs r fs')
  case Nil
  then show ?case by simp
next
  case (Cons a szs)
  obtain sz0 w0 h0 where a: "a = (sz0, w0, h0)" by (cases a) auto
  show ?case
  proof (cases "fs (fpath file)")
    case None
    with Cons.prems a show ?thesis by simp
  next
    case (Some src)
    show ?thesis
    proof (cases "fails (thumbnailPath (filename file) sz0)")
      case True
      with Cons.prems a Some show ?thesis by simp
    next
      case False
      let ?fs1 = "fs(thumbnailPath (filename file) sz0 \<mapsto> jpeg 85 (resizeCover w0 h0 src))"
      obtain r1 fs1' where m: "makeThumbnails fails baseUrl file szs ?fs1 = (r1, fs1')"
        by (cases "makeThumbnails fails baseUrl file szs ?fs1") auto
      from Cons.prems(2) a have in0: "(sz0, w0, h0) \<in> set thumbnailSizes" and sub: "set szs \<subseteq> set thumbnailSizes"
        by auto
      from write_keeps_dims [where fs = fs and f = f, OF in0 assms(3) Cons.prems(3)]
      have "\<exists>d. ?fs1 (thumbnailPath f sz) = Some d \<and> width d = w \<and> height d = h" .
      from Cons.IH [OF m sub this] have k: "\<exists>d. fs1' (thumbnailPath f sz) = Some d \<and> width d = w \<and> height d = h" .
      from Cons.prems(1) a Some False m have "fs' = fs1'"
        by (cases r1) (auto simp: Let_def)
      with k show ?thesis by simp
    qed
  qed
qed

lemma makeThumbnails_writes_dims:
  assumes "makeThumbnails fails baseUrl file szs fs = (Inr ts, fs')"
    and "set szs \<subseteq> set thumbnailSizes"
    and "(sz, w, h) \<in> set szs"
  shows "\<exists>d. fs' (thumbnailPath (filename file) sz) = Some d \<and> width d = w \<and> height d = h"
  using assms
proof (induction szs arbitrary: fs ts fs')
  case Nil
  then show ?case by simp
next
  case (Cons a szs)
  obtain sz0 w0 h0 where a: "a = (sz0, w0, h0)" by (cases a) auto
  from Cons.prems(1) a obtain src where src: "fs (fpath file) = Some src"
    by (cases "fs (fpath file)") auto
  from Cons.prems(1) a src have nf: "\<not> fails (thumbnailPath (filename file) sz0)"
    by (auto simp: Let_def split: if_splits)
  let ?fs1 = "fs(thumbnailPath (filename file) sz0 \<mapsto> jpeg 85 (resizeCover w0 h0 src))"
  obtain r1 fs1' where m: "makeThumbnails fails baseUrl file szs ?fs1 = (r1, fs1')"
    by (cases "makeThumbnails fails baseUrl file szs ?fs1") auto
  from Cons.prems(1) a src nf m obtain ts1 where r1: "r1 = Inr ts1" and eq: "fs' = fs1'"
    by (cases r1) (auto simp: Let_def)
  from Cons.prems(2) have sub: "set szs \<subseteq> set thumbnailSizes" by simp
  show ?case
  proof (cases "(sz, w, h) \<in> set szs")
    case True
    from Cons.IH [OF m [unfolded r1] sub True] eq show ?thesis by simp
  next
    case False
    with Cons.prems(3) a have e: "sz = sz0" "w = w0" "h = h0" by auto
    from Cons.prems(2,3) have in0: "(sz, w, h) \<in> set thumbnailSizes" by auto
    have "\<exists>d. ?fs1 (thumbnailPath (filename file) sz) = Some d \<and> width d = w \<and> height d = h"
      using e by (simp add: jpeg_def resizeCover_def)
    from makeThumbnails_keeps_dims [OF m sub in0 this] eq show ?thesis by simp
  qed
qed

lemma makeThumbnails_descriptor:
  "makeThumbnails fails baseUrl file szs fs = (Inr ts, fs') \<Longrightarrow>
     map (\<lambda>(sz, t). (sz, t_width t, t_height t)) ts = szs"
proof (induction szs arbitrary: fs ts fs')
  case Nil
  then show ?case by simp
next
  case (Cons a szs)
  obtain sz0 w0 h0 where a: "a = (sz0, w0, h0)" by (cases a) auto
  from Cons.prems(1) a obtain src where src: "fs (fpath file) = Some src"
    by (cases "fs (fpath file)") auto
  from Cons.prems(1) a src have nf: "\<not> fails (thumbnailPath (filename file) sz0)"
    by (auto simp: Let_def split: if_splits)
  let ?fs1 = "fs(thumbnailPath (filename file) sz0 \<mapsto> jpeg 85 (resizeCover w0 h0 src))"
  obtain r1 fs1' where m: "makeThumbnails fails baseUrl file szs ?fs1 = (r1, fs1')"
    by (cases "makeThumbnails fails baseUrl file szs ?fs1") auto
  from Cons.prems(1) a src nf m obtain ts1 where r1: "r1 = Inr ts1"
    and ts: "ts = (sz0, \<lparr>t_url = baseUrl @ ''/uploads/images/'' @ parseName (filename file) @ ''_'' @ sz0 @ extname (filename file),
                          t_width = w0, t_height = h0\<rparr>) # ts1"
    by (cases r1) (auto simp: Let_def)
  from Cons.IH [OF m [unfolded r1]] ts a show ?case by simp
qed

lemma processFiles_keeps_dims:
  assumes "processFiles fails baseUrl fls fs = (r, fs')"
    and "(sz, w, h) \<in> set thumbnailSizes"
    and "\<exists>d. fs (thumbnailPath f sz) = Some d \<and> width d = w \<and> height d = h"
  shows "\<exists>d. fs' (thumbnailPath f sz) = Some d \<and> width d = w \<and> height d = h"
  using assms(1,3)
proof (induction fls arbitrary: fs r fs')
  case Nil
  then show ?case by simp
next
  case (Cons u fls)
  obtain r1 fs1 where m: "makeThumbnails fails baseUrl u thumbnailSizes fs = (r1, fs1)"
    by (cases "makeThumbnails fails baseUrl u thumbnailSizes fs") auto
  from makeThumbnails_keeps_dims [OF m subset_refl assms(2) Cons.prems(2)]
  have k1: "\<exists>d. fs1 (thumbnailPath f sz) = Some d \<and> width d = w \<and> height d = h" .
  show ?case
  proof (cases r1)
    case (Inl e)
    with Cons.prems(1) m k1 show ?thesis by auto
  next
    case (Inr thumbs)
    show ?thesis
    proof (cases "fs1 (fpath u)")
      case None
      with Cons.prems(1) m Inr k1 show ?thesis by auto
    next
      case (Some src)
      obtain r2 fs2 where n: "processFiles fails baseUrl fls fs1 = (r2, fs2)"
        by (cases "processFiles fails baseUrl fls fs1") auto
      from Cons.IH [OF n k1] have k2: "\<exists>d. fs2 (thumbnailPath f sz) = Some d \<and> width d = w \<and> height d = h" .
      from Cons.prems(1) m Inr Some n have "fs' = fs2" by (cases r2) auto
      with k2 show ?thesis by simp
    qed
  qed
qed

lemma processFiles_dims:
  assumes "processFiles fails baseUrl fls fs = (Inr imgs, fs')"
    and "u \<in> set fls"
    and "(sz, w, h) \<in> set thumbnailSizes"
  shows "\<exists>d. fs' (thumbnailPath (filename u) sz) = Some d \<and> width d = w \<and> height d = h"
  using assms(1,2)
proof (induction fls arbitrary: fs imgs fs')
  case Nil
  then show ?case by simp
next
  case (Cons v fls)
  obtain r1 fs1 where m: "makeThumbnails fails baseUrl v thumbnailSizes fs = (r1, fs1)"
    by (cases "makeThumbnails fails baseUrl v thumbnailSizes fs") auto
  from Cons.prems(1) m obtain thumbs where r1: "r1 = Inr thumbs"
    by (cases r1) auto
  from Cons.prems(1) m r1 obtain src where src: "fs1 (fpath v) = Some src"
    by (cases "fs1 (fpath v)") auto
  obtain r2 fs2 where n: "processFiles fails baseUrl fls fs1 = (r2, fs2)"
    by (cases "processFiles fails baseUrl fls fs1") auto
  from Cons.prems(1) m r1 src n obtain imgs2 where r2: "r2 = Inr imgs2" and eq: "fs' = fs2"
    by (cases r2) auto
  show ?case
  proof (cases "u \<in> set fls")
    case True
    from Cons.IH [OF n [unfolded r2] True] eq show ?thesis by simp
  next
    case False
    with Cons.prems(2) have "u = v" by simp
    with makeThumbnails_writes_dims [OF m [unfolded r1] subset_refl assms(3)]
    have "\<exists>d. fs1 (thumbnailPath (filename u) sz) = Some d \<and> width d = w \<and> height d = h"
      by simp
    from processFiles_keeps_dims [OF n assms(3) this] eq show ?thesis by simp
  qed
qed

lemma processFiles_descriptors:
  "processFiles fails baseUrl fls fs = (Inr imgs, fs') \<Longrightarrow>
     map (\<lambda>i. map (\<lambda>(sz, t). (sz, t_width t, t_height t)) (pi_thumbnails i)) imgs
       = replicate (length fls) thumbnailSizes"
proof (induction fls arbitrary: fs imgs fs')
  case Nil
  then show ?case by simp
next
  case (Cons v fls)
  obtain r1 fs1 where m: "makeThumbnails fails baseUrl v thumbnailSizes fs = (r1, fs1)"
    by (cases "makeThumbnails fails baseUrl v thumbnailSizes fs") auto
  from Cons.prems(1) m obtain thumbs where r1: "r1 = Inr thumbs"
    by (cases r1) auto
  from Cons.prems(1) m r1 obtain src where src: "fs1 (fpath v) = Some src"
    by (cases "fs1 (fpath v)") auto
  obtain r2 fs2 where n: "processFiles fails baseUrl fls fs1 = (r2, fs2)"
    by (cases "processFiles fails baseUrl fls fs1") auto
  from Cons.prems(1) m r1 src n obtain imgs2 where r2: "r2 = Inr imgs2"
    and im: "pi_thumbnails (hd imgs) = thumbs" "tl imgs = imgs2" "imgs \<noteq> []"
    by (cases r2) auto
  from makeThumbnails_descriptor [OF m [unfolded r1]] Cons.IH [OF n [unfolded r2]] im
  show ?case by (cases imgs) auto
qed

text \<open>
  Claim C5, amended. After a successful \<open>processImage\<close>, the derivative of every uploaded
  file for every profile has exactly the dimensions of the profile (150 by 150, 400 by 400,
  800 by 600), whatever the dimensions of the source, and every descriptor reports the
  same numbers.
\<close>

theorem derivative_has_profile_dimensions:
  assumes "processImage fails baseUrl (Some fls) fs = (Inr imgs, fs')"
    and "u \<in> set fls"
    and "(sz, w, h) \<in> set thumbnailSizes"
  shows "(\<exists>d. fs' (thumbnailPath (filename u) sz) = Some d \<and> width d = w \<and> height d = h) \<and>
         map (\<lambda>i. map (\<lambda>(sz, t). (sz, t_width t, t_height t)) (pi_thumbnails i)) imgs
           = replicate (length fls) thumbnailSizes"
  using processFiles_dims [OF _ assms(2,3)] processFiles_descriptors assms(1)
  by (simp add: processImage_def)

theorem derivative_has_profile_dimensions_witness:
  "(\<exists>imgs. fst (processImage neverFails ''http://host'' (Some [pngUpload]) smallPngDir) = Inr imgs) \<and>
   pngUpload \<in> set [pngUpload] \<and> (''large'', 800, 600) \<in> set thumbnailSizes \<and>
   (\<exists>d. snd (processImage neverFails ''http://host'' (Some [pngUpload]) smallPngDir)
           (thumbnailPath (filename pngUpload) ''large'') = Some d \<and> width d = 800 \<and> height d = 600)"
proof -
  let ?run = "processImage neverFails ''http://host'' (Some [pngUpload]) smallPngDir"
  have e: "\<exists>imgs. fst ?run = Inr imgs" by (simp add: image_eval smallPngDir_def path_eval)
  then obtain imgs where r: "?run = (Inr imgs, snd ?run)" by (metis prod.collapse)
  have m: "pngUpload \<in> set [pngUpload]" by simp
  have z: "(''large'', 800, 600) \<in> set thumbnailSizes" by (simp add: thumbnailSizes_def)
  from derivative_has_profile_dimensions [OF r m z] e m z show ?thesis by blast
qed

text \<open>
  Claim C5 as stated fails: the source \<open>a.png\<close> is 100 by 80, smaller than every profile,
  and its small derivative is 150 by 150, larger than the source in both directions and of
  another aspect ratio.
\<close>

theorem small_source_is_upscaled:
  "map_option (\<lambda>d. (width d, height d)) (smallPngDir (fpath pngUpload)) = Some (100, 80) \<and>
   (\<exists>imgs. fst (processImage neverFails ''http://host'' (Some [pngUpload]) smallPngDir) = Inr imgs) \<and>
   map_option (\<lambda>d. (width d, height d))
     (snd (processImage neverFails ''http://host'' (Some [pngUpload]) smallPngDir)
        (thumbnailPath ''a.png'' ''small'')) = Some (150, 150)"
  by (simp add: image_eval smallPngDir_def path_eval)







end
